theory Spec2Isabelle
  imports Complex_Main "HOL-Library.AList" "HOL-Library.Multiset"
begin

section \<open>The msgr client (src/src/index.ts) as a transition system\<close>

text \<open>
  The client is single threaded: every public call, every reply the broker delivers,
  every timer that fires and every promise of the transport that settles is one task of
  the event loop, run to completion. The embedding has one state record for the fields of
  the \<^verbatim>\<open>Msgr\<close> instance together with the part of the runtime the code reads and
  writes (armed timers, promises, error listeners, calls made on the channel), one function
  per method of the class, and a function \<open>step\<close> that runs one task.

  Time is the order of the tasks: an armed timer may fire at any later task, a cleared one
  never does. What the transport answers is an input: each \<^verbatim>\<open>await\<close> of \<^verbatim>\<open>_connect\<close>
  resumes with a success or a failure, and a channel may emit \<^verbatim>\<open>'error'\<close>. Calls made on
  the channel are recorded and taken to return.
\<close>

subsection \<open>JavaScript values\<close>

text \<open>
  \<open>json\<close> is a value \<^verbatim>\<open>JSON.parse\<close> can return and \<^verbatim>\<open>JSON.stringify\<close> can
  write. A number is the rational it denotes (every finite double is one; the infinities a
  literal such as 1e999 parses to are left out). An object lists its own properties; a
  parsed object has each key once. \<open>jsval\<close> adds \<^verbatim>\<open>undefined\<close> as \<open>None\<close>.
\<close>

datatype json =
    JNull
  | JBool bool
  | JNum rat
  | JStr string
  | JArr "json list"
  | JObj "(string \<times> json) list"

type_synonym jsval = "json option"

text \<open>An options object: own properties in insertion order, values possibly undefined.\<close>

type_synonym obj = "(string \<times> jsval) list"

text \<open>ToBoolean: undefined, null, false, 0 and the empty string are falsy.\<close>

fun truthy :: "jsval \<Rightarrow> bool" where
  "truthy None = False"
| "truthy (Some JNull) = False"
| "truthy (Some (JBool b)) = b"
| "truthy (Some (JNum r)) = (r \<noteq> 0)"
| "truthy (Some (JStr s)) = (s \<noteq> [])"
| "truthy (Some (JArr xs)) = True"
| "truthy (Some (JObj kvs)) = True"

text \<open>
  \<^verbatim>\<open>response.k\<close> for a value that is not null, and for the three names the client reads
  (\<^verbatim>\<open>error\<close>, \<^verbatim>\<open>trace\<close>, \<^verbatim>\<open>data\<close>), which no prototype defines: an own property of an
  object, undefined on anything else. Reading a property of null throws; the caller of
  \<open>get\<close> tests for null first.
\<close>

fun get :: "json \<Rightarrow> string \<Rightarrow> jsval" where
  "get (JObj kvs) k = map_of kvs k"
| "get v k = None"

text \<open>
  \<^verbatim>\<open>Object.assign(target, source)\<close>: each own property of the source is assigned to the
  target, in order; an existing key keeps its place and takes the new value.
\<close>

fun Object_assign :: "obj \<Rightarrow> obj \<Rightarrow> obj" where
  "Object_assign target [] = target"
| "Object_assign target ((k, v) # source) = Object_assign (AList.update k v target) source"

text \<open>
  \<^verbatim>\<open>String(n)\<close> for an integer \<open>n\<close>, as the template literal of line 73 prints it. For a
  safe integer (below \<open>2^53\<close> in size) JavaScript prints the integer's own decimal digits,
  with a minus sign when negative. A larger number is printed from the digits of its
  nearest double, in exponent form from \<open>10^21\<close>; that text is not modelled, and the
  result is \<open>None\<close>.
\<close>

fun digits :: "nat \<Rightarrow> string" where
  "digits n =
     (if n < 10 then [''0123456789'' ! n] else digits (n div 10) @ [''0123456789'' ! (n mod 10)])"

declare digits.simps [simp del]

definition number_to_string :: "int \<Rightarrow> string option" where
  "number_to_string i =
     (if \<bar>i\<bar> < 2 ^ 53
      then Some (if i < 0 then CHR ''-'' # digits (nat (- i)) else digits (nat i))
      else None)"

subsection \<open>Errors, settlements, messages, options\<close>

text \<open>
  \<open>Error m\<close> is \<^verbatim>\<open>new Error(m)\<close>, \<open>ClientError m d\<close> is the class of lines 32-40 with
  its \<^verbatim>\<open>clientMessages\<close>; \<open>TypeError\<close> and \<open>SyntaxError\<close> are what reading a property of
  null and \<^verbatim>\<open>JSON.parse\<close> throw. \<open>TimeoutErrorUnprinted t\<close> is the Error of line 73 for a
  timeout \<open>t\<close> that is not a safe integer: its message holds the text JavaScript prints for
  \<open>t\<close>, which \<open>number_to_string\<close> does not give, so the value keeps the number.
\<close>

datatype js_error =
    Error string
  | ClientError string jsval
  | TypeError
  | SyntaxError
  | TimeoutErrorUnprinted int

text \<open>One call of a promise's \<^verbatim>\<open>resolve\<close> or \<^verbatim>\<open>reject\<close>.\<close>

datatype settlement = Resolved jsval | Rejected js_error

text \<open>
  A message the broker delivers. \<open>content\<close> is what
  \<^verbatim>\<open>JSON.parse(message.content.toString())\<close> returns for its body, \<open>None\<close> when the body
  is not JSON text and the parse throws.
\<close>

record message =
  correlationId :: "string option"
  content :: "json option"

text \<open>\<^verbatim>\<open>Msgr.RpcOptions\<close>: the publish options of the transport and \<^verbatim>\<open>timeout?: number\<close>
  (an integer number of milliseconds here).\<close>

record rpc_options =
  timeout :: "int option"
  publish_options :: obj

record connection_options =
  maxConnectionAttempts :: "int option"
  connectionRetryInterval :: "int option"

text \<open>The closure of the \<^verbatim>\<open>setTimeout\<close> callback of lines 70-74: the correlation id and
  the timeout it captured.\<close>

record timer =
  t_correlationId :: string
  t_timeout :: int

text \<open>A call made on the channel object.\<close>

datatype channel_call =
    Publish string string json "obj option"
  | AssertQueue string

text \<open>
  A call waiting in \<^verbatim>\<open>_waitForChannel().then(() => this.rpcExec(key, data, options))\<close>
  (lines 61, 106, 116): what to call again. For rpcExec the number is the promise the
  caller holds; the promise of the call made again settles it.
\<close>

datatype deferred =
    DRpcExec nat string json rpc_options
  | DPublish string json "obj option"
  | DConsume string nat obj

text \<open>
  Where one run of \<^verbatim>\<open>_connect\<close> (lines 129-155) stands; the run and the promise it
  returns share a number. \<open>RetryDelay a\<close> is the promise of line 144 before its timer has
  fired, \<open>a\<close> the attempt number the run will have.
\<close>

datatype connect_stage =
    NotStarted
  | RetryDelay int
  | AwaitConnect int
  | AwaitCreateChannel int
  | AwaitAssertQueue
  | AwaitBindQueue
  | Fulfilled
  | Failed

subsection \<open>The state\<close>

text \<open>
  The first seven fields are the instance's (lines 44-49, \<open>options\<close> as its two entries);
  a channel is named by the run of \<^verbatim>\<open>_connect\<close> that created it, a callback in
  \<open>unresolved\<close> by the rpcExec call that stored it. The rest is the runtime:
  \<^item> \<open>connects\<close>: the stage of each run of \<^verbatim>\<open>_connect\<close>, that is the state of each channel promise;
  \<^item> \<open>errorHandlers\<close>: the \<^verbatim>\<open>once('error')\<close> listener of a channel, with the attempt number it captured;
  \<^item> \<open>waiters\<close>: the calls waiting on a channel promise, in the order they subscribed;
  \<^item> \<open>timers\<close>: the armed timers of rpcExec calls;
  \<^item> \<open>settlements\<close>: every call of resolve or reject made on the promise of an rpcExec call, oldest first;
  \<^item> \<open>transport\<close>: the calls made on channels, oldest first;
  \<^item> \<open>next_call\<close>, \<open>next_promise\<close>: the numbers of the next rpcExec call and channel promise.
\<close>

record msgr =
  opt_maxConnectionAttempts :: int
  opt_connectionRetryInterval :: int
  exchange :: string
  channelPromise :: nat
  channel :: "nat option"
  replyQueue :: "string option"
  unresolved :: "string \<rightharpoonup> nat"
  connects :: "nat \<Rightarrow> connect_stage"
  errorHandlers :: "nat \<rightharpoonup> int"
  waiters :: "(nat \<times> deferred) list"
  timers :: "nat \<rightharpoonup> timer"
  settlements :: "nat \<Rightarrow> settlement list"
  transport :: "channel_call list"
  next_call :: nat
  next_promise :: nat

subsection \<open>The constructor\<close>

definition DEFAULT_SEND_OPTIONS :: obj where
  "DEFAULT_SEND_OPTIONS = [(''contentType'', Some (JStr ''application/json''))]"

text \<open>Lines 51-56: the options over their defaults (lines 8-11), the exchange
  (\<^verbatim>\<open>'msgr'\<close> when not given), and the first run of \<^verbatim>\<open>_connect\<close>, which stops at
  \<^verbatim>\<open>await AMQP.connect(url)\<close> with \<open>attempts = 1\<close>.\<close>

definition Msgr_new :: "string \<Rightarrow> string option \<Rightarrow> connection_options \<Rightarrow> msgr" where
  "Msgr_new url exch options =
     \<lparr> opt_maxConnectionAttempts = (case maxConnectionAttempts options of None \<Rightarrow> 50 | Some m \<Rightarrow> m),
       opt_connectionRetryInterval = (case connectionRetryInterval options of None \<Rightarrow> 1000 | Some i \<Rightarrow> i),
       exchange = (case exch of None \<Rightarrow> ''msgr'' | Some e \<Rightarrow> e),
       channelPromise = 0,
       channel = None,
       replyQueue = None,
       unresolved = Map.empty,
       connects = (\<lambda>i. NotStarted)(0 := AwaitConnect 1),
       errorHandlers = Map.empty,
       waiters = [],
       timers = Map.empty,
       settlements = (\<lambda>n. []),
       transport = [],
       next_call = 0,
       next_promise = 1 \<rparr>"

subsection \<open>rpcExec, publish, consume\<close>

text \<open>Lines 157-163: the continuation subscribes to the channel promise current at the
  call, for its fulfilment only; \<^verbatim>\<open>reject\<close> is never called.\<close>

definition waitForChannel :: "msgr \<Rightarrow> deferred \<Rightarrow> msgr" where
  "waitForChannel st d = st\<lparr>waiters := waiters st @ [(channelPromise st, d)]\<rparr>"

text \<open>A call of \<^verbatim>\<open>resolve\<close> or \<^verbatim>\<open>reject\<close> of promise \<open>n\<close>, appended to its record.\<close>

definition settle :: "nat \<Rightarrow> settlement \<Rightarrow> msgr \<Rightarrow> msgr" where
  "settle n s st = st\<lparr>settlements := (settlements st)(n := settlements st n @ [s])\<rparr>"

text \<open>Line 68: \<^verbatim>\<open>options.timeout || 15000\<close>.\<close>

definition effective_timeout :: "rpc_options \<Rightarrow> int" where
  "effective_timeout options =
     (case timeout options of None \<Rightarrow> 15000 | Some t \<Rightarrow> if t \<noteq> 0 then t else 15000)"

text \<open>Lines 93-97.\<close>

definition sendOptions :: "string \<Rightarrow> string option \<Rightarrow> int \<Rightarrow> obj" where
  "sendOptions cid rq t =
     Object_assign (Object_assign [] DEFAULT_SEND_OPTIONS)
       [(''correlationId'', Some (JStr cid)),
        (''replyTo'', map_option JStr rq),
        (''expiration'', Some (JNum (of_int t)))]"

text \<open>
  Lines 58-101. \<open>n\<close> is the number of the promise the caller holds, \<open>v4 n\<close> what
  \<^verbatim>\<open>Uuid.v4()\<close> returns to call \<open>n\<close>. With the channel set the call arms its timer,
  stores its callback under the correlation id and publishes; of \<open>options\<close> only the
  timeout is read.
\<close>

definition rpcExec :: "(nat \<Rightarrow> string) \<Rightarrow> nat \<Rightarrow> msgr \<Rightarrow> string \<Rightarrow> json \<Rightarrow> rpc_options \<Rightarrow> msgr" where
  "rpcExec v4 n st key data options =
     (if channel st = None then waitForChannel st (DRpcExec n key data options)
      else
        let cid = v4 n;
            t = effective_timeout options
        in st\<lparr> timers := (timers st)(n \<mapsto> \<lparr>t_correlationId = cid, t_timeout = t\<rparr>),
               unresolved := (unresolved st)(cid \<mapsto> n),
               transport := transport st @
                 [Publish (exchange st) key data (Some (sendOptions cid (replyQueue st) t))] \<rparr>)"

text \<open>Lines 103-111.\<close>

definition publish :: "msgr \<Rightarrow> string \<Rightarrow> json \<Rightarrow> obj option \<Rightarrow> msgr" where
  "publish st key data options =
     (if channel st = None then waitForChannel st (DPublish key data options)
      else st\<lparr>transport := transport st @ [Publish (exchange st) key data options]\<rparr>)"

text \<open>Lines 113-127, up to the call of \<^verbatim>\<open>assertQueue\<close>; what follows its answer (binding
  the queue, subscribing the callback) is the transport's and is not followed here.\<close>

definition consume :: "msgr \<Rightarrow> string \<Rightarrow> nat \<Rightarrow> obj \<Rightarrow> msgr" where
  "consume st queueName callback options =
     (if channel st = None then waitForChannel st (DConsume queueName callback options)
      else st\<lparr>transport := transport st @ [AssertQueue queueName]\<rparr>)"

subsection \<open>Replies and timeouts\<close>

text \<open>Line 73: the error the timer rejects with.\<close>

definition timeout_error :: "int \<Rightarrow> js_error" where
  "timeout_error t =
     (case number_to_string t of
        Some printed \<Rightarrow>
          Error (''RPC Server failed to respond before the configured timeout ('' @ printed @ ''ms)'')
      | None \<Rightarrow> TimeoutErrorUnprinted t)"

text \<open>Lines 70-74, for an armed timer; a timer that was cleared or has fired does not fire.\<close>

definition timeout_fired :: "nat \<Rightarrow> msgr \<Rightarrow> msgr" where
  "timeout_fired n st =
     (case timers st n of
        None \<Rightarrow> st
      | Some tm \<Rightarrow>
          settle n (Rejected (timeout_error (t_timeout tm)))
            (st\<lparr> timers := (timers st)(n := None),
                 unresolved := (unresolved st)(t_correlationId tm := None) \<rparr>))"

text \<open>Lines 76-91, the callback of call \<open>n\<close>: the state it leaves and what it throws.\<close>

definition reply_callback :: "nat \<Rightarrow> message \<Rightarrow> msgr \<Rightarrow> msgr \<times> js_error option" where
  "reply_callback n message st =
     (let st1 = st\<lparr>timers := (timers st)(n := None)\<rparr> in
      case content message of
        None \<Rightarrow> (st1, Some SyntaxError)
      | Some JNull \<Rightarrow> (st1, Some TypeError)
      | Some response \<Rightarrow>
          if truthy (get response ''error'') \<and> truthy (get response ''trace'')
          then (settle n (Rejected (Error ''Fatal consumer error'')) st1, None)
          else if truthy (get response ''error'')
          then (settle n (Rejected (ClientError ''Client error'' (get response ''data''))) st1, None)
          else (settle n (Resolved (get response ''data'')) st1, None))"

text \<open>Lines 175-183. The keys of the map are strings, so an undefined id finds nothing.\<close>

definition handleReply :: "msgr \<Rightarrow> message \<Rightarrow> msgr \<times> js_error option" where
  "handleReply st message =
     (case correlationId message of
        None \<Rightarrow> (st, None)
      | Some cid \<Rightarrow>
          (case unresolved st cid of
             None \<Rightarrow> (st, None)
           | Some n \<Rightarrow> reply_callback n message (st\<lparr>unresolved := (unresolved st)(cid := None)\<rparr>)))"

subsection \<open>Connecting\<close>

fun resume :: "(nat \<Rightarrow> string) \<Rightarrow> msgr \<Rightarrow> deferred \<Rightarrow> msgr" where
  "resume v4 st (DRpcExec n key data options) = rpcExec v4 n st key data options"
| "resume v4 st (DPublish key data options) = publish st key data options"
| "resume v4 st (DConsume queueName callback options) = consume st queueName callback options"

text \<open>Channel promise \<open>i\<close> is fulfilled: its subscribers run in the order they subscribed.\<close>

definition fulfil :: "(nat \<Rightarrow> string) \<Rightarrow> nat \<Rightarrow> msgr \<Rightarrow> msgr" where
  "fulfil v4 i st =
     foldl (resume v4)
       (st\<lparr> connects := (connects st)(i := Fulfilled),
            waiters := filter (\<lambda>w. fst w \<noteq> i) (waiters st) \<rparr>)
       (map snd (filter (\<lambda>w. fst w = i) (waiters st)))"

definition fail :: "nat \<Rightarrow> msgr \<Rightarrow> msgr" where
  "fail i st = st\<lparr>connects := (connects st)(i := Failed)\<rparr>"

text \<open>Line 135: \<^verbatim>\<open>AMQP.connect(url)\<close> has settled for run \<open>i\<close>.\<close>

definition connect_settled :: "nat \<Rightarrow> bool \<Rightarrow> msgr \<Rightarrow> msgr" where
  "connect_settled i ok st =
     (case connects st i of
        AwaitConnect a \<Rightarrow>
          if ok then st\<lparr>connects := (connects st)(i := AwaitCreateChannel a)\<rparr> else fail i st
      | _ \<Rightarrow> st)"

text \<open>Lines 136-149: \<^verbatim>\<open>createChannel()\<close> has settled; the channel is stored, the error
  listener added when \<^verbatim>\<open>attempts < maxConnectionAttempts\<close>, the reply queue asked for.\<close>

definition createChannel_settled :: "nat \<Rightarrow> bool \<Rightarrow> msgr \<Rightarrow> msgr" where
  "createChannel_settled i ok st =
     (case connects st i of
        AwaitCreateChannel a \<Rightarrow>
          if ok
          then st\<lparr> channel := Some i,
                   errorHandlers :=
                     (if a < opt_maxConnectionAttempts st then (errorHandlers st)(i \<mapsto> a)
                      else errorHandlers st),
                   connects := (connects st)(i := AwaitAssertQueue) \<rparr>
          else fail i st
      | _ \<Rightarrow> st)"

text \<open>Lines 149-152: \<^verbatim>\<open>assertQueue\<close> has settled, with the queue's name or an error. Line
  152 reads \<^verbatim>\<open>this.channel\<close> again: a TypeError when the listener has set it to null.\<close>

definition assertQueue_settled :: "nat \<Rightarrow> string option \<Rightarrow> msgr \<Rightarrow> msgr" where
  "assertQueue_settled i answer st =
     (case connects st i of
        AwaitAssertQueue \<Rightarrow>
          (case answer of
             None \<Rightarrow> fail i st
           | Some q \<Rightarrow>
               let st1 = st\<lparr>replyQueue := Some q\<rparr> in
               if channel st1 = None then fail i st1
               else st1\<lparr>connects := (connects st1)(i := AwaitBindQueue)\<rparr>)
      | _ \<Rightarrow> st)"

text \<open>Lines 152-155: \<^verbatim>\<open>bindQueue\<close> has settled; line 154 reads \<^verbatim>\<open>this.channel\<close> once
  more, subscribes the reply listener, and the run's promise is fulfilled.\<close>

definition bindQueue_settled :: "(nat \<Rightarrow> string) \<Rightarrow> nat \<Rightarrow> bool \<Rightarrow> msgr \<Rightarrow> msgr" where
  "bindQueue_settled v4 i ok st =
     (case connects st i of
        AwaitBindQueue \<Rightarrow>
          if ok \<and> channel st \<noteq> None then fulfil v4 i st else fail i st
      | _ \<Rightarrow> st)"

text \<open>Lines 139-146: channel \<open>c\<close> emits \<^verbatim>\<open>'error'\<close>. Its listener, if it has one, runs once:
  the channel field is cleared and a new channel promise replaces the current one. Without
  a listener (the last attempt allowed) nothing of the client runs.\<close>

definition channel_error :: "nat \<Rightarrow> msgr \<Rightarrow> msgr" where
  "channel_error c st =
     (case errorHandlers st c of
        None \<Rightarrow> st
      | Some a \<Rightarrow>
          st\<lparr> errorHandlers := (errorHandlers st)(c := None),
               channel := None,
               channelPromise := next_promise st,
               connects := (connects st)(next_promise st := RetryDelay (a + 1)),
               next_promise := Suc (next_promise st) \<rparr>)"

text \<open>Lines 144-145: the retry interval has passed, \<^verbatim>\<open>_connect(url, ++attempts)\<close> starts.\<close>

definition retry_delay_elapsed :: "nat \<Rightarrow> msgr \<Rightarrow> msgr" where
  "retry_delay_elapsed i st =
     (case connects st i of
        RetryDelay a \<Rightarrow> st\<lparr>connects := (connects st)(i := AwaitConnect a)\<rparr>
      | _ \<Rightarrow> st)"

subsection \<open>The event loop\<close>

datatype event =
    CallRpcExec string json rpc_options
  | CallPublish string json "obj option"
  | CallConsume string nat obj
  | ReplyDelivered message
  | TimeoutFired nat
  | ConnectSettled nat bool
  | CreateChannelSettled nat bool
  | AssertQueueSettled nat "string option"
  | BindQueueSettled nat bool
  | ChannelError nat
  | RetryDelayElapsed nat

text \<open>
  One task. A call of rpcExec takes the next promise number. What a reply callback throws
  goes to the transport that called the listener; the client is left in the state the
  callback reached.
\<close>

fun step :: "(nat \<Rightarrow> string) \<Rightarrow> msgr \<Rightarrow> event \<Rightarrow> msgr" where
  "step v4 st (CallRpcExec key data options) =
     rpcExec v4 (next_call st) (st\<lparr>next_call := Suc (next_call st)\<rparr>) key data options"
| "step v4 st (CallPublish key data options) = publish st key data options"
| "step v4 st (CallConsume queueName callback options) = consume st queueName callback options"
| "step v4 st (ReplyDelivered message) = fst (handleReply st message)"
| "step v4 st (TimeoutFired n) = timeout_fired n st"
| "step v4 st (ConnectSettled i ok) = connect_settled i ok st"
| "step v4 st (CreateChannelSettled i ok) = createChannel_settled i ok st"
| "step v4 st (AssertQueueSettled i answer) = assertQueue_settled i answer st"
| "step v4 st (BindQueueSettled i ok) = bindQueue_settled v4 i ok st"
| "step v4 st (ChannelError c) = channel_error c st"
| "step v4 st (RetryDelayElapsed i) = retry_delay_elapsed i st"

definition run :: "(nat \<Rightarrow> string) \<Rightarrow> msgr \<Rightarrow> event list \<Rightarrow> msgr" where
  "run v4 st evs = foldl (step v4) st evs"

section \<open>Invariants of the event loop\<close>

text \<open>The rpcExec calls among waiting calls, by the number of their promise.\<close>

fun rpc_id :: "deferred \<Rightarrow> nat list" where
  "rpc_id (DRpcExec n key data options) = [n]"
| "rpc_id d = []"

definition waiting :: "deferred list \<Rightarrow> nat list" where
  "waiting ds = concat (map rpc_id ds)"

text \<open>
  What holds of the timers, the registry and the settlements in every state the client
  reaches, given the calls \<open>ds\<close> that wait for a channel: an armed timer belongs to a call that
  was made, is not waiting and has not settled; a registry entry is stored under its call's
  id and its call's timer is armed; no promise is settled twice; calls not yet made and
  calls that wait have not settled; no call waits twice.
\<close>

definition wf_rpc :: "(nat \<Rightarrow> string) \<Rightarrow> deferred list \<Rightarrow> msgr \<Rightarrow> bool" where
  "wf_rpc v4 ds st \<longleftrightarrow>
     (\<forall>n tm. timers st n = Some tm \<longrightarrow>
        settlements st n = [] \<and> n < next_call st \<and> t_correlationId tm = v4 n \<and> n \<notin> set (waiting ds))
   \<and> (\<forall>c n. unresolved st c = Some n \<longrightarrow> c = v4 n \<and> timers st n \<noteq> None)
   \<and> (\<forall>n. length (settlements st n) \<le> 1)
   \<and> (\<forall>n. next_call st \<le> n \<longrightarrow> settlements st n = [])
   \<and> distinct (waiting ds)
   \<and> (\<forall>n \<in> set (waiting ds). n < next_call st \<and> settlements st n = [])"

text \<open>Channel promises not yet created have not started, and the channel field is only
  empty while the current channel promise is unfulfilled.\<close>

definition wf_conn :: "msgr \<Rightarrow> bool" where
  "wf_conn st \<longleftrightarrow>
     (\<forall>i. next_promise st \<le> i \<longrightarrow> connects st i = NotStarted)
   \<and> (channel st = None \<longrightarrow> connects st (channelPromise st) \<noteq> Fulfilled)
   \<and> channelPromise st < next_promise st"

text \<open>With ids that never repeat, the call of every armed timer is in the registry.\<close>

definition wf_fresh :: "(nat \<Rightarrow> string) \<Rightarrow> msgr \<Rightarrow> bool" where
  "wf_fresh v4 st \<longleftrightarrow> (\<forall>n tm. timers st n = Some tm \<longrightarrow> unresolved st (v4 n) = Some n)"

definition inv :: "(nat \<Rightarrow> string) \<Rightarrow> msgr \<Rightarrow> bool" where
  "inv v4 st \<longleftrightarrow> wf_rpc v4 (map snd (waiters st)) st \<and> wf_conn st"

text \<open>A call that is neither new nor waiting keeps its timer until the timer is disarmed, and
  its settlements once the timer is disarmed.\<close>

definition kept :: "nat \<Rightarrow> msgr \<Rightarrow> msgr \<Rightarrow> bool" where
  "kept n st st' \<longleftrightarrow>
     n < next_call st' \<and> n \<notin> set (waiting (map snd (waiters st')))
   \<and> (timers st' n = timers st n \<or> timers st' n = None)
   \<and> (timers st n = None \<longrightarrow> settlements st' n = settlements st n)"

text \<open>The call on the channel that a waiting call makes when it is called again with the
  channel set.\<close>

fun resumed_call :: "(nat \<Rightarrow> string) \<Rightarrow> msgr \<Rightarrow> deferred \<Rightarrow> channel_call" where
  "resumed_call v4 st (DRpcExec n key data options) =
     Publish (exchange st) key data
       (Some (sendOptions (v4 n) (replyQueue st) (effective_timeout options)))"
| "resumed_call v4 st (DPublish key data options) = Publish (exchange st) key data options"
| "resumed_call v4 st (DConsume queueName callback options) = AssertQueue queueName"

text \<open>An event that neither fires the timer of call \<open>n\<close> nor delivers a reply with the
  correlation id \<open>cid\<close>.\<close>

fun quiet :: "string \<Rightarrow> nat \<Rightarrow> event \<Rightarrow> bool" where
  "quiet cid n (ReplyDelivered m) = (correlationId m \<noteq> Some cid)"
| "quiet cid n (TimeoutFired k) = (k \<noteq> n)"
| "quiet cid n ev = True"

text \<open>An event that is not the delivery of a reply whose body is null or is not JSON.\<close>

fun wellformed :: "event \<Rightarrow> bool" where
  "wellformed (ReplyDelivered m) = (case content m of None \<Rightarrow> False | Some r \<Rightarrow> r \<noteq> JNull)"
| "wellformed ev = True"

text \<open>Call \<open>n\<close> waits for a channel, or its timer is armed and its promise unsettled, or its
  timer is disarmed and its promise settled exactly once.\<close>

definition pending_or_settled :: "msgr \<Rightarrow> nat \<Rightarrow> bool" where
  "pending_or_settled st n \<longleftrightarrow>
     n \<in> set (waiting (map snd (waiters st)))
   \<or> (timers st n \<noteq> None \<and> settlements st n = [])
   \<or> (timers st n = None \<and> length (settlements st n) = 1)"

section \<open>A concrete run\<close>

text \<open>
  A client with the default options whose first connection succeeds, an rpcExec call with
  a timeout of 50 ms, and replies to it. The ids are \<open>u\<close>, \<open>uu\<close>, \<open>uuu\<close>, ...
\<close>

definition demo_uuid :: "nat \<Rightarrow> string" where
  "demo_uuid n = replicate (Suc n) CHR ''u''"

definition demo_client :: msgr where
  "demo_client = Msgr_new ''amqp://broker'' None \<lparr>maxConnectionAttempts = None, connectionRetryInterval = None\<rparr>"

definition demo_setup :: "event list" where
  "demo_setup =
     [ConnectSettled 0 True, CreateChannelSettled 0 True,
      AssertQueueSettled 0 (Some ''amq.gen-1''), BindQueueSettled 0 True]"

definition demo_call :: event where
  "demo_call = CallRpcExec ''echo'' (JObj [(''n'', JNum 1)]) \<lparr>timeout = Some 50, publish_options = []\<rparr>"

definition demo_ready_state :: msgr where
  "demo_ready_state =
     \<lparr> opt_maxConnectionAttempts = 50, opt_connectionRetryInterval = 1000, exchange = ''msgr'',
       channelPromise = 0, channel = Some 0, replyQueue = Some ''amq.gen-1'',
       unresolved = Map.empty,
       connects = (\<lambda>i. NotStarted)(0 := Fulfilled),
       errorHandlers = [0 \<mapsto> 1], waiters = [], timers = Map.empty,
       settlements = (\<lambda>n. []), transport = [], next_call = 0, next_promise = 1 \<rparr>"

definition demo_pending_state :: msgr where
  "demo_pending_state =
     demo_ready_state
       \<lparr> unresolved := [''u'' \<mapsto> 0],
         timers := [0 \<mapsto> \<lparr>t_correlationId = ''u'', t_timeout = 50\<rparr>],
         transport := [Publish ''msgr'' ''echo'' (JObj [(''n'', JNum 1)])
                     (Some [(''contentType'', Some (JStr ''application/json'')),
                            (''correlationId'', Some (JStr ''u'')),
                            (''replyTo'', Some (JStr ''amq.gen-1'')),
                            (''expiration'', Some (JNum 50))])],
         next_call := 1 \<rparr>"

definition demo_client_error :: message where
  "demo_client_error =
     \<lparr> correlationId = Some ''u'',
       content = Some (JObj [(''data'', JArr [JStr ''bad field'']), (''error'', JBool True),
                             (''trace'', JNull)]) \<rparr>"

definition demo_success :: message where
  "demo_success =
     \<lparr> correlationId = Some ''u'',
       content = Some (JObj [(''data'', JObj [(''n'', JNum 1)]), (''error'', JBool False)]) \<rparr>"

definition demo_stray :: message where
  "demo_stray = \<lparr>correlationId = Some ''uu'', content = Some (JObj [(''data'', JNum 7)])\<rparr>"

definition demo_fatal :: "string \<Rightarrow> json \<Rightarrow> message" where
  "demo_fatal trace data =
     \<lparr> correlationId = Some ''u'',
       content = Some (JObj [(''data'', data), (''error'', JBool True), (''trace'', JStr trace)]) \<rparr>"

text \<open>A reply to the call whose body is the JSON text \<^verbatim>\<open>null\<close>.\<close>

definition demo_null :: message where
  "demo_null = \<lparr>correlationId = Some ''u'', content = Some JNull\<rparr>"

text \<open>An rpcExec call that passes a publish option of the transport.\<close>

definition demo_persistent :: event where
  "demo_persistent =
     CallRpcExec ''echo'' JNull
       \<lparr>timeout = Some 50, publish_options = [(''persistent'', Some (JBool True))]\<rparr>"

text \<open>
  A client allowed two connection attempts: the first channel emits an error, a call is
  made while the client reconnects, and the second attempt fails to connect.
\<close>

definition demo_client_two :: msgr where
  "demo_client_two =
     Msgr_new ''amqp://broker'' None \<lparr>maxConnectionAttempts = Some 2, connectionRetryInterval = None\<rparr>"

definition demo_exhaust :: "event list" where
  "demo_exhaust =
     [ConnectSettled 0 True, CreateChannelSettled 0 True, ChannelError 0, demo_call,
      RetryDelayElapsed 1, ConnectSettled 1 False]"

definition demo_deferred :: deferred where
  "demo_deferred = DRpcExec 0 ''echo'' (JObj [(''n'', JNum 1)]) \<lparr>timeout = Some 50, publish_options = []\<rparr>"

text \<open>
  A call made before the first connection is up, whose set-up then fails at
  \<^verbatim>\<open>bindQueue\<close> with a channel error; the retry succeeds.
\<close>

definition demo_lost :: "event list" where
  "demo_lost =
     [demo_call,
      ConnectSettled 0 True, CreateChannelSettled 0 True,
      AssertQueueSettled 0 (Some ''amq.gen-1''), BindQueueSettled 0 False, ChannelError 0,
      RetryDelayElapsed 1, ConnectSettled 1 True, CreateChannelSettled 1 True,
      AssertQueueSettled 1 (Some ''amq.gen-2''), BindQueueSettled 1 True]"

text \<open>A reply to the call whose body is not JSON text.\<close>

definition demo_garbage :: message where
  "demo_garbage = \<lparr>correlationId = Some ''u'', content = None\<rparr>"

section \<open>The invariants hold in every reachable state\<close>

lemma waiting_simps [simp]:
  "waiting [] = []"
  "waiting (DRpcExec n key data options # ds) = n # waiting ds"
  "waiting (DPublish key data po # ds) = waiting ds"
  "waiting (DConsume q cb co # ds) = waiting ds"
  "waiting (xs @ ys) = waiting xs @ waiting ys"
  by (simp_all add: waiting_def)

lemma wf_rpcI:
  assumes "\<And>n tm. timers st n = Some tm \<Longrightarrow> settlements st n = []"
    and "\<And>n tm. timers st n = Some tm \<Longrightarrow> n < next_call st"
    and "\<And>n tm. timers st n = Some tm \<Longrightarrow> t_correlationId tm = v4 n"
    and "\<And>n tm. timers st n = Some tm \<Longrightarrow> n \<notin> set (waiting ds)"
    and "\<And>c n. unresolved st c = Some n \<Longrightarrow> c = v4 n"
    and "\<And>c n. unresolved st c = Some n \<Longrightarrow> timers st n \<noteq> None"
    and "\<And>n. length (settlements st n) \<le> 1"
    and "\<And>n. next_call st \<le> n \<Longrightarrow> settlements st n = []"
    and "distinct (waiting ds)"
    and "\<And>n. n \<in> set (waiting ds) \<Longrightarrow> n < next_call st"
    and "\<And>n. n \<in> set (waiting ds) \<Longrightarrow> settlements st n = []"
  shows "wf_rpc v4 ds st"
  unfolding wf_rpc_def using assms by blast

lemma wf_rpcD:
  assumes "wf_rpc v4 ds st"
  shows "\<And>n tm. timers st n = Some tm \<Longrightarrow> settlements st n = []"
    and "\<And>n tm. timers st n = Some tm \<Longrightarrow> n < next_call st"
    and "\<And>n tm. timers st n = Some tm \<Longrightarrow> t_correlationId tm = v4 n"
    and "\<And>n tm. timers st n = Some tm \<Longrightarrow> n \<notin> set (waiting ds)"
    and "\<And>c n. unresolved st c = Some n \<Longrightarrow> c = v4 n"
    and "\<And>c n. unresolved st c = Some n \<Longrightarrow> timers st n \<noteq> None"
    and "\<And>n. length (settlements st n) \<le> 1"
    and "\<And>n. next_call st \<le> n \<Longrightarrow> settlements st n = []"
    and "distinct (waiting ds)"
    and "\<And>n. n \<in> set (waiting ds) \<Longrightarrow> n < next_call st"
    and "\<And>n. n \<in> set (waiting ds) \<Longrightarrow> settlements st n = []"
  using assms unfolding wf_rpc_def by blast+

lemma wf_rpc_frame:
  assumes "timers st' = timers st" "settlements st' = settlements st"
    "unresolved st' = unresolved st" "next_call st' = next_call st"
  shows "wf_rpc v4 ds st' = wf_rpc v4 ds st"
  using assms by (simp add: wf_rpc_def)

lemma wf_fresh_frame:
  assumes "timers st' = timers st" "unresolved st' = unresolved st"
  shows "wf_fresh v4 st' = wf_fresh v4 st"
  using assms by (simp add: wf_fresh_def)

lemma wf_conn_frame:
  assumes "connects st' = connects st" "next_promise st' = next_promise st"
    "channel st' = channel st" "channelPromise st' = channelPromise st"
  shows "wf_conn st' = wf_conn st"
  using assms by (simp add: wf_conn_def)

lemma wf_rpc_perm:
  assumes "mset (waiting ds) = mset (waiting ds')"
  shows "wf_rpc v4 ds st = wf_rpc v4 ds' st"
proof -
  have "set (waiting ds) = set (waiting ds')" using assms by (rule mset_eq_setD)
  moreover have "distinct (waiting ds) = distinct (waiting ds')"
    using assms by (rule mset_eq_imp_distinct_iff)
  ultimately show ?thesis by (simp add: wf_rpc_def)
qed

lemma waiting_partition:
  "mset (waiting (map snd (filter P ws))) + mset (waiting (map snd (filter (\<lambda>w. \<not> P w) ws)))
     = mset (waiting (map snd ws))"
proof (induction ws)
  case Nil
  then show ?case by simp
next
  case (Cons w ws)
  obtain i d where w: "w = (i, d)" by (cases w)
  show ?case using Cons by (cases d) (simp_all add: w)
qed

text \<open>The four operations on the fields of rpcExec.\<close>

lemma rpcExec_ready:
  assumes "channel st \<noteq> None"
  shows "rpcExec v4 n st key data options =
           st\<lparr> timers := (timers st)(n \<mapsto> \<lparr>t_correlationId = v4 n, t_timeout = effective_timeout options\<rparr>),
                unresolved := (unresolved st)(v4 n \<mapsto> n),
                transport := transport st @
                  [Publish (exchange st) key data
                     (Some (sendOptions (v4 n) (replyQueue st) (effective_timeout options)))] \<rparr>"
  using assms by (auto simp: rpcExec_def Let_def)

lemma rpcExec_deferred:
  assumes "channel st = None"
  shows "rpcExec v4 n st key data options =
           st\<lparr>waiters := waiters st @ [(channelPromise st, DRpcExec n key data options)]\<rparr>"
  using assms by (simp add: rpcExec_def waitForChannel_def)

lemma wf_rpc_exec:
  assumes w: "wf_rpc v4 (DRpcExec n key data options # ds) st"
  shows "wf_rpc v4 ds
           (st\<lparr> timers := (timers st)(n \<mapsto> tmr\<lparr>t_correlationId := v4 n\<rparr>),
                unresolved := (unresolved st)(v4 n \<mapsto> n),
                transport := tr \<rparr>)"
proof (rule wf_rpcI, goal_cases)
  case (1 m tm)
  then show ?case using wf_rpcD(1)[OF w, of m tm] wf_rpcD(11)[OF w, of n]
    by (simp split: if_splits)
next
  case (2 m tm)
  then show ?case using wf_rpcD(2)[OF w, of m tm] wf_rpcD(10)[OF w, of n]
    by (simp split: if_splits)
next
  case (3 m tm)
  then show ?case using wf_rpcD(3)[OF w, of m tm] by (auto split: if_splits)
next
  case (4 m tm)
  then show ?case using wf_rpcD(4)[OF w, of m tm] wf_rpcD(9)[OF w]
    by (auto split: if_splits)
next
  case (5 c m)
  then show ?case using wf_rpcD(5)[OF w, of c m] by (simp split: if_splits)
next
  case (6 c m)
  then show ?case using wf_rpcD(6)[OF w, of c m] by (simp split: if_splits)
next
  case (7 m)
  then show ?case using wf_rpcD(7)[OF w, of m] by simp
next
  case (8 m)
  then show ?case using wf_rpcD(8)[OF w, of m] by simp
next
  case 9
  then show ?case using wf_rpcD(9)[OF w] by simp
next
  case (10 m)
  then show ?case using wf_rpcD(10)[OF w, of m] by simp
next
  case (11 m)
  then show ?case using wf_rpcD(11)[OF w, of m] by simp
qed

lemma wf_rpc_alloc:
  assumes w: "wf_rpc v4 ds st"
  shows "wf_rpc v4 (DRpcExec (next_call st) key data options # ds) (st\<lparr>next_call := Suc (next_call st)\<rparr>)"
proof (rule wf_rpcI, goal_cases)
  case (1 m tm)
  then show ?case using wf_rpcD(1)[OF w, of m tm] by simp
next
  case (2 m tm)
  then show ?case using wf_rpcD(2)[OF w, of m tm] by simp
next
  case (3 m tm)
  then show ?case using wf_rpcD(3)[OF w, of m tm] by simp
next
  case (4 m tm)
  then show ?case using wf_rpcD(4)[OF w, of m tm] wf_rpcD(2)[OF w, of m tm] by auto
next
  case (5 c m)
  then show ?case using wf_rpcD(5)[OF w, of c m] by simp
next
  case (6 c m)
  then show ?case using wf_rpcD(6)[OF w, of c m] by simp
next
  case (7 m)
  then show ?case using wf_rpcD(7)[OF w, of m] by simp
next
  case (8 m)
  then show ?case using wf_rpcD(8)[OF w, of m] by simp
next
  case 9
  then show ?case using wf_rpcD(9)[OF w] wf_rpcD(10)[OF w, of "next_call st"] by auto
next
  case (10 m)
  then show ?case using wf_rpcD(10)[OF w, of m] by auto
next
  case (11 m)
  then show ?case using wf_rpcD(11)[OF w, of m] wf_rpcD(8)[OF w, of "next_call st"] by auto
qed

lemma wf_rpc_timeout:
  assumes w: "wf_rpc v4 ds st" and t: "timers st n = Some tm"
  shows "wf_rpc v4 ds
          (settle n s
            (st\<lparr> timers := (timers st)(n := None),
                 unresolved := (unresolved st)(t_correlationId tm := None) \<rparr>))"
proof (rule wf_rpcI, goal_cases)
  case (1 m tm')
  then show ?case using wf_rpcD(1)[OF w, of m tm'] by (simp add: settle_def split: if_splits)
next
  case (2 m tm')
  then show ?case using wf_rpcD(2)[OF w, of m tm'] by (simp add: settle_def split: if_splits)
next
  case (3 m tm')
  then show ?case using wf_rpcD(3)[OF w, of m tm'] by (simp add: settle_def split: if_splits)
next
  case (4 m tm')
  then show ?case using wf_rpcD(4)[OF w, of m tm'] by (simp add: settle_def split: if_splits)
next
  case (5 c m)
  then show ?case using wf_rpcD(5)[OF w, of c m] by (simp add: settle_def split: if_splits)
next
  case (6 c m)
  then show ?case using wf_rpcD(6)[OF w, of c m] wf_rpcD(5)[OF w, of c m] wf_rpcD(3)[OF w t]
    by (auto simp: settle_def split: if_splits)
next
  case (7 m)
  then show ?case using wf_rpcD(7)[OF w, of m] wf_rpcD(1)[OF w t] by (simp add: settle_def)
next
  case (8 m)
  then show ?case using wf_rpcD(8)[OF w, of m] wf_rpcD(2)[OF w t] by (auto simp: settle_def)
next
  case 9
  then show ?case using wf_rpcD(9)[OF w] by simp
next
  case (10 m)
  then show ?case using wf_rpcD(10)[OF w, of m] by (simp add: settle_def)
next
  case (11 m)
  then show ?case using wf_rpcD(11)[OF w, of m] wf_rpcD(4)[OF w t] by (auto simp: settle_def)
qed

lemma wf_rpc_clear:
  assumes w: "wf_rpc v4 ds st" and u: "unresolved st cid = Some n"
  shows "wf_rpc v4 ds (st\<lparr>unresolved := (unresolved st)(cid := None), timers := (timers st)(n := None)\<rparr>)"
proof (rule wf_rpcI, goal_cases)
  case (1 m tm')
  then show ?case using wf_rpcD(1)[OF w, of m tm'] by (simp split: if_splits)
next
  case (2 m tm')
  then show ?case using wf_rpcD(2)[OF w, of m tm'] by (simp split: if_splits)
next
  case (3 m tm')
  then show ?case using wf_rpcD(3)[OF w, of m tm'] by (simp split: if_splits)
next
  case (4 m tm')
  then show ?case using wf_rpcD(4)[OF w, of m tm'] by (simp split: if_splits)
next
  case (5 c m)
  then show ?case using wf_rpcD(5)[OF w, of c m] by (simp split: if_splits)
next
  case (6 c m)
  then show ?case using wf_rpcD(6)[OF w, of c m] wf_rpcD(5)[OF w, of c m] wf_rpcD(5)[OF w u]
    by (auto split: if_splits)
next
  case (7 m)
  then show ?case using wf_rpcD(7)[OF w, of m] by simp
next
  case (8 m)
  then show ?case using wf_rpcD(8)[OF w, of m] by simp
next
  case 9
  then show ?case using wf_rpcD(9)[OF w] by simp
next
  case (10 m)
  then show ?case using wf_rpcD(10)[OF w, of m] by simp
next
  case (11 m)
  then show ?case using wf_rpcD(11)[OF w, of m] by simp
qed

lemma wf_rpc_reply:
  assumes w: "wf_rpc v4 ds st" and u: "unresolved st cid = Some n"
  shows "wf_rpc v4 ds
           (settle n s (st\<lparr>unresolved := (unresolved st)(cid := None), timers := (timers st)(n := None)\<rparr>))"
proof -
  obtain tm where t: "timers st n = Some tm" using wf_rpcD(6)[OF w u] by auto
  have c: "t_correlationId tm = cid" using wf_rpcD(3)[OF w t] wf_rpcD(5)[OF w u] by simp
  have "st\<lparr>unresolved := (unresolved st)(cid := None), timers := (timers st)(n := None)\<rparr>
        = st\<lparr>timers := (timers st)(n := None), unresolved := (unresolved st)(t_correlationId tm := None)\<rparr>"
    using c by simp
  then show ?thesis using wf_rpc_timeout[OF w t, of s] by simp
qed

lemma inv_new: "inv v4 (Msgr_new url exch options)"
  by (simp add: inv_def wf_rpc_def wf_conn_def Msgr_new_def)

lemma wf_rpc_rpcExec_ready:
  assumes "channel st \<noteq> None" "wf_rpc v4 (DRpcExec n key data options # ds) st"
  shows "wf_rpc v4 ds (rpcExec v4 n st key data options)"
  using wf_rpc_exec[OF assms(2), where tmr = "\<lparr>t_correlationId = v4 n, t_timeout = effective_timeout options\<rparr>"]
  by (simp add: rpcExec_ready[OF assms(1)])

lemma resume_ready:
  assumes "channel st \<noteq> None"
  shows "waiters (resume v4 st d) = waiters st" "channel (resume v4 st d) = channel st"
    "connects (resume v4 st d) = connects st" "next_promise (resume v4 st d) = next_promise st"
    "channelPromise (resume v4 st d) = channelPromise st"
    "settlements (resume v4 st d) = settlements st"
    "errorHandlers (resume v4 st d) = errorHandlers st"
    "next_call (resume v4 st d) = next_call st"
  using assms by (cases d; auto simp: rpcExec_def publish_def consume_def Let_def)+

lemma wf_rpc_resume_ready:
  assumes "channel st \<noteq> None" "wf_rpc v4 (d # ds) st"
  shows "wf_rpc v4 ds (resume v4 st d)"
proof (cases d)
  case (DRpcExec n key data options)
  then show ?thesis using assms by (simp add: wf_rpc_rpcExec_ready)
next
  case (DPublish key data options)
  have "wf_rpc v4 ds st" using assms(2) DPublish by (simp add: wf_rpc_def)
  then show ?thesis using assms(1) DPublish by (auto simp: publish_def wf_rpc_def)
next
  case (DConsume q cb options)
  have "wf_rpc v4 ds st" using assms(2) DConsume by (simp add: wf_rpc_def)
  then show ?thesis using assms(1) DConsume by (auto simp: consume_def wf_rpc_def)
qed

lemma foldl_resume_ready:
  assumes "channel st \<noteq> None"
  shows "waiters (foldl (resume v4) st ws) = waiters st \<and> channel (foldl (resume v4) st ws) = channel st
       \<and> connects (foldl (resume v4) st ws) = connects st
       \<and> next_promise (foldl (resume v4) st ws) = next_promise st
       \<and> channelPromise (foldl (resume v4) st ws) = channelPromise st
       \<and> settlements (foldl (resume v4) st ws) = settlements st
       \<and> errorHandlers (foldl (resume v4) st ws) = errorHandlers st
       \<and> next_call (foldl (resume v4) st ws) = next_call st"
  using assms
proof (induction ws arbitrary: st)
  case Nil
  then show ?case by simp
next
  case (Cons w ws)
  have "channel (resume v4 st w) \<noteq> None" using Cons.prems resume_ready(2)[of st v4 w] by simp
  then show ?case using Cons.IH[of "resume v4 st w"] resume_ready[OF Cons.prems, of v4 w] by simp
qed

lemma wf_rpc_foldl_resume:
  assumes "channel st \<noteq> None" "wf_rpc v4 (ws @ ds) st"
  shows "wf_rpc v4 ds (foldl (resume v4) st ws)"
  using assms
proof (induction ws arbitrary: st)
  case Nil
  then show ?case by simp
next
  case (Cons w ws)
  have "wf_rpc v4 (ws @ ds) (resume v4 st w)"
    using Cons.prems wf_rpc_resume_ready[of st v4 w "ws @ ds"] by simp
  moreover have "channel (resume v4 st w) \<noteq> None"
    using Cons.prems resume_ready(2)[of st v4 w] by simp
  ultimately show ?case using Cons.IH[of "resume v4 st w"] by simp
qed

lemma inv_fulfil:
  assumes "inv v4 st" "channel st \<noteq> None" "connects st i \<noteq> NotStarted"
  shows "inv v4 (fulfil v4 i st)"
proof -
  let ?ws = "map snd (filter (\<lambda>w. fst w = i) (waiters st))"
  let ?ds = "map snd (filter (\<lambda>w. fst w \<noteq> i) (waiters st))"
  let ?st0 = "st\<lparr>connects := (connects st)(i := Fulfilled), waiters := filter (\<lambda>w. fst w \<noteq> i) (waiters st)\<rparr>"
  have ch: "channel ?st0 \<noteq> None" using assms(2) by simp
  have "mset (waiting (?ws @ ?ds)) = mset (waiting (map snd (waiters st)))"
    using waiting_partition[of "\<lambda>w. fst w = i" "waiters st"] by simp
  then have "wf_rpc v4 (?ws @ ?ds) st = wf_rpc v4 (map snd (waiters st)) st" by (rule wf_rpc_perm)
  then have "wf_rpc v4 (?ws @ ?ds) st" using assms(1) by (simp add: inv_def)
  then have "wf_rpc v4 (?ws @ ?ds) ?st0" by (simp add: wf_rpc_def)
  then have "wf_rpc v4 ?ds (foldl (resume v4) ?st0 ?ws)" using ch by (rule wf_rpc_foldl_resume[rotated])
  moreover have "wf_conn ?st0" using assms unfolding inv_def wf_conn_def by auto
  then have "wf_conn (foldl (resume v4) ?st0 ?ws)"
    using foldl_resume_ready[OF ch, of v4 ?ws] by (simp add: wf_conn_def)
  moreover have "waiters (foldl (resume v4) ?st0 ?ws) = waiters ?st0"
    using foldl_resume_ready[OF ch, of v4 ?ws] by simp
  ultimately show ?thesis by (simp add: inv_def fulfil_def)
qed

lemma inv_fail: "inv v4 st \<Longrightarrow> connects st i \<noteq> NotStarted \<Longrightarrow> inv v4 (fail i st)"
  unfolding inv_def wf_conn_def fail_def by (auto simp: wf_rpc_def)

lemma inv_publish: "inv v4 st \<Longrightarrow> inv v4 (publish st key data options)"
  by (auto simp: inv_def publish_def waitForChannel_def wf_rpc_def wf_conn_def)

lemma inv_consume: "inv v4 st \<Longrightarrow> inv v4 (consume st q cb options)"
  by (auto simp: inv_def consume_def waitForChannel_def wf_rpc_def wf_conn_def)

lemma inv_call_rpcExec:
  assumes "inv v4 st"
  shows "inv v4 (rpcExec v4 (next_call st) (st\<lparr>next_call := Suc (next_call st)\<rparr>) key data options)"
proof -
  let ?n = "next_call st"
  let ?st = "st\<lparr>next_call := Suc (next_call st)\<rparr>"
  let ?d = "DRpcExec ?n key data options"
  have w: "wf_rpc v4 (?d # map snd (waiters st)) ?st"
    using assms by (simp add: inv_def wf_rpc_alloc)
  have c: "wf_conn ?st" using assms by (simp add: inv_def wf_conn_def)
  show ?thesis
  proof (cases "channel st = None")
    case True
    have "mset (waiting (map snd (waiters st) @ [?d])) = mset (waiting (?d # map snd (waiters st)))"
      by simp
    then have "wf_rpc v4 (map snd (waiters st) @ [?d]) ?st" using w wf_rpc_perm by blast
    then have "wf_rpc v4 (map snd (waiters st) @ [?d]) (?st\<lparr>waiters := waiters st @ [(channelPromise st, ?d)]\<rparr>)"
      by (simp add: wf_rpc_def)
    moreover have "wf_conn (?st\<lparr>waiters := waiters st @ [(channelPromise st, ?d)]\<rparr>)"
      using c by (simp add: wf_conn_def)
    ultimately show ?thesis using True by (simp add: rpcExec_deferred inv_def)
  next
    case False
    then have ch: "channel ?st \<noteq> None" by simp
    have "wf_rpc v4 (map snd (waiters st)) (rpcExec v4 ?n ?st key data options)"
      using wf_rpc_rpcExec_ready[OF ch w] .
    moreover have "wf_conn (rpcExec v4 ?n ?st key data options)"
      using c by (simp add: rpcExec_ready[OF ch] wf_conn_def)
    moreover have "waiters (rpcExec v4 ?n ?st key data options) = waiters st"
      by (simp add: rpcExec_ready[OF ch])
    ultimately show ?thesis by (simp add: inv_def)
  qed
qed

lemma timeout_fired_armed:
  assumes "timers st n = Some tm"
  shows "timeout_fired n st =
           settle n (Rejected (timeout_error (t_timeout tm)))
             (st\<lparr> timers := (timers st)(n := None),
                  unresolved := (unresolved st)(t_correlationId tm := None) \<rparr>)"
  using assms by (simp add: timeout_fired_def)

lemma timeout_fired_idle: "timers st n = None \<Longrightarrow> timeout_fired n st = st"
  by (simp add: timeout_fired_def)

lemma inv_timeout_fired: "inv v4 st \<Longrightarrow> inv v4 (timeout_fired n st)"
proof (cases "timers st n")
  case None
  assume "inv v4 st"
  then show ?thesis using None by (simp add: timeout_fired_idle)
next
  case (Some tm)
  assume i: "inv v4 st"
  then have "wf_rpc v4 (map snd (waiters st)) (timeout_fired n st)"
    using wf_rpc_timeout[of v4 "map snd (waiters st)" st n tm] Some
    by (simp add: inv_def timeout_fired_armed)
  moreover have "wf_conn (timeout_fired n st)"
    using i Some by (simp add: inv_def timeout_fired_armed wf_conn_def settle_def)
  moreover have "waiters (timeout_fired n st) = waiters st"
    using Some by (simp add: timeout_fired_armed settle_def)
  ultimately show ?thesis by (simp add: inv_def)
qed

lemma reply_callback_cases:
  "fst (reply_callback n m st) = st\<lparr>timers := (timers st)(n := None)\<rparr>
   \<or> (\<exists>s. fst (reply_callback n m st) = settle n s (st\<lparr>timers := (timers st)(n := None)\<rparr>))"
  by (auto simp: reply_callback_def Let_def split: option.splits json.splits)

lemma handleReply_unmatched:
  assumes "case correlationId m of None \<Rightarrow> True | Some cid \<Rightarrow> unresolved st cid = None"
  shows "handleReply st m = (st, None)"
  using assms by (auto simp: handleReply_def split: option.splits)

lemma handleReply_matched:
  assumes "correlationId m = Some cid" "unresolved st cid = Some n"
  shows "handleReply st m = reply_callback n m (st\<lparr>unresolved := (unresolved st)(cid := None)\<rparr>)"
  using assms by (simp add: handleReply_def)

lemma inv_handleReply: "inv v4 st \<Longrightarrow> inv v4 (fst (handleReply st m))"
proof -
  assume i: "inv v4 st"
  then have w: "wf_rpc v4 (map snd (waiters st)) st" and c: "wf_conn st" by (simp_all add: inv_def)
  show ?thesis
  proof (cases "case correlationId m of None \<Rightarrow> True | Some cid \<Rightarrow> unresolved st cid = None")
    case True
    then show ?thesis using i by (simp add: handleReply_unmatched)
  next
    case False
    then obtain cid n where m: "correlationId m = Some cid" and u: "unresolved st cid = Some n"
      by (auto split: option.splits)
    let ?st0 = "st\<lparr>unresolved := (unresolved st)(cid := None)\<rparr>"
    let ?st1 = "?st0\<lparr>timers := (timers ?st0)(n := None)\<rparr>"
    have a: "inv v4 ?st1"
      using wf_rpc_clear[OF w u] c by (simp add: inv_def wf_conn_def)
    have b: "inv v4 (settle n s ?st1)" for s
      using wf_rpc_reply[OF w u, of s] c by (simp add: inv_def wf_conn_def settle_def)
    have h: "fst (handleReply st m) = fst (reply_callback n m ?st0)"
      using m u by (simp add: handleReply_matched)
    from reply_callback_cases[of n m ?st0] show ?thesis
    proof
      assume "fst (reply_callback n m ?st0) = ?st1"
      then show ?thesis using a h by simp
    next
      assume "\<exists>s. fst (reply_callback n m ?st0) = settle n s ?st1"
      then obtain s where "fst (reply_callback n m ?st0) = settle n s ?st1" ..
      then show ?thesis using b[of s] h by simp
    qed
  qed
qed

lemma inv_connect_settled: "inv v4 st \<Longrightarrow> inv v4 (connect_settled i ok st)"
  unfolding connect_settled_def
  by (auto split: connect_stage.splits intro: inv_fail) (auto simp: inv_def wf_rpc_def wf_conn_def)

lemma inv_createChannel_settled: "inv v4 st \<Longrightarrow> inv v4 (createChannel_settled i ok st)"
  unfolding createChannel_settled_def
  by (auto split: connect_stage.splits intro: inv_fail) (auto simp: inv_def wf_rpc_def wf_conn_def)

lemma inv_assertQueue_settled: "inv v4 st \<Longrightarrow> inv v4 (assertQueue_settled i answer st)"
  unfolding assertQueue_settled_def
  by (auto simp: Let_def inv_def wf_rpc_def wf_conn_def fail_def split: connect_stage.splits option.splits)

lemma inv_bindQueue_settled: "inv v4 st \<Longrightarrow> inv v4 (bindQueue_settled v4 i ok st)"
  unfolding bindQueue_settled_def
  by (auto split: connect_stage.splits intro: inv_fail inv_fulfil)

lemma inv_channel_error: "inv v4 st \<Longrightarrow> inv v4 (channel_error c st)"
  unfolding channel_error_def inv_def wf_conn_def
  by (auto simp: wf_rpc_def split: option.splits)

lemma inv_retry_delay_elapsed: "inv v4 st \<Longrightarrow> inv v4 (retry_delay_elapsed i st)"
  unfolding retry_delay_elapsed_def inv_def wf_conn_def
  by (auto simp: wf_rpc_def split: connect_stage.splits)

lemma inv_step: "inv v4 st \<Longrightarrow> inv v4 (step v4 st ev)"
  by (cases ev)
     (simp_all add: inv_call_rpcExec inv_publish inv_consume inv_handleReply inv_timeout_fired
        inv_connect_settled inv_createChannel_settled inv_assertQueue_settled
        inv_bindQueue_settled inv_channel_error inv_retry_delay_elapsed)

lemma inv_run: "inv v4 st \<Longrightarrow> inv v4 (run v4 st evs)"
  unfolding run_def by (induction evs arbitrary: st) (simp_all add: inv_step)

lemma inv_reachable: "inv v4 (run v4 (Msgr_new url exch options) evs)"
  by (rule inv_run) (rule inv_new)

lemma waiting_filter_subset:
  "set (waiting (map snd (filter P ws))) \<subseteq> set (waiting (map snd ws))"
proof -
  have "set_mset (mset (waiting (map snd (filter P ws)))) \<subseteq> set_mset (mset (waiting (map snd ws)))"
    using waiting_partition[of P ws] by (metis mset_subset_eq_add_left set_mset_mono)
  then show ?thesis by simp
qed

lemma resume_timers_other:
  assumes "channel st \<noteq> None" "n \<notin> set (rpc_id d)"
  shows "timers (resume v4 st d) n = timers st n"
  using assms by (cases d) (auto simp: rpcExec_def publish_def consume_def Let_def)

lemma foldl_resume_timers_other:
  assumes "channel st \<noteq> None" "n \<notin> set (waiting ws)"
  shows "timers (foldl (resume v4) st ws) n = timers st n"
  using assms
proof (induction ws arbitrary: st)
  case Nil
  then show ?case by simp
next
  case (Cons w ws)
  have a: "n \<notin> set (rpc_id w)" "n \<notin> set (waiting ws)"
    using Cons.prems(2) by (simp_all add: waiting_def)
  have "channel (resume v4 st w) \<noteq> None" using Cons.prems(1) resume_ready(2)[of st v4 w] by simp
  then show ?case
    using Cons.IH[of "resume v4 st w"] a resume_timers_other[OF Cons.prems(1) a(1), of v4] by simp
qed

lemma fulfil_fields:
  assumes "channel st \<noteq> None"
  shows "waiters (fulfil v4 i st) = filter (\<lambda>w. fst w \<noteq> i) (waiters st)"
    "settlements (fulfil v4 i st) = settlements st"
    "next_call (fulfil v4 i st) = next_call st"
    "connects (fulfil v4 i st) = (connects st)(i := Fulfilled)"
    "channel (fulfil v4 i st) = channel st"
proof -
  let ?st0 = "st\<lparr>connects := (connects st)(i := Fulfilled), waiters := filter (\<lambda>w. fst w \<noteq> i) (waiters st)\<rparr>"
  have ch: "channel ?st0 \<noteq> None" using assms by simp
  note f = foldl_resume_ready[OF ch, of v4 "map snd (filter (\<lambda>w. fst w = i) (waiters st))"]
  show "waiters (fulfil v4 i st) = filter (\<lambda>w. fst w \<noteq> i) (waiters st)"
    "settlements (fulfil v4 i st) = settlements st"
    "next_call (fulfil v4 i st) = next_call st"
    "connects (fulfil v4 i st) = (connects st)(i := Fulfilled)"
    "channel (fulfil v4 i st) = channel st"
    using f by (simp_all add: fulfil_def)
qed

lemma fulfil_timers_other:
  assumes "channel st \<noteq> None" "n \<notin> set (waiting (map snd (waiters st)))"
  shows "timers (fulfil v4 i st) n = timers st n"
proof -
  let ?st0 = "st\<lparr>connects := (connects st)(i := Fulfilled), waiters := filter (\<lambda>w. fst w \<noteq> i) (waiters st)\<rparr>"
  have ch: "channel ?st0 \<noteq> None" using assms by simp
  have "n \<notin> set (waiting (map snd (filter (\<lambda>w. fst w = i) (waiters st))))"
    using assms(2) waiting_filter_subset[of "\<lambda>w. fst w = i" "waiters st"] by blast
  then show ?thesis using foldl_resume_timers_other[OF ch, of n _ v4] by (simp add: fulfil_def)
qed

lemma kept_frame:
  assumes "n < next_call st" "n \<notin> set (waiting (map snd (waiters st)))"
    and "next_call st' = next_call st" "waiters st' = waiters st" "timers st' = timers st"
    "settlements st' = settlements st"
  shows "kept n st st'"
  using assms by (simp add: kept_def)

lemma kept_step:
  assumes i: "inv v4 st" and n: "n < next_call st" and w: "n \<notin> set (waiting (map snd (waiters st)))"
  shows "kept n st (step v4 st ev)"
proof (cases ev)
  case (CallRpcExec key data options)
  show ?thesis
  proof (cases "channel st = None")
    case True
    then show ?thesis using CallRpcExec n w by (simp add: rpcExec_deferred kept_def)
  next
    case False
    then have "channel (st\<lparr>next_call := Suc (next_call st)\<rparr>) \<noteq> None" by simp
    then show ?thesis using CallRpcExec n w by (simp add: rpcExec_ready kept_def)
  qed
next
  case (CallPublish key data options)
  then show ?thesis using n w by (auto simp: publish_def waitForChannel_def kept_def)
next
  case (CallConsume q cb options)
  then show ?thesis using n w by (auto simp: consume_def waitForChannel_def kept_def)
next
  case (ReplyDelivered m)
  show ?thesis
  proof (cases "case correlationId m of None \<Rightarrow> True | Some cid \<Rightarrow> unresolved st cid = None")
    case True
    then show ?thesis using ReplyDelivered n w by (simp add: handleReply_unmatched kept_def)
  next
    case False
    then obtain cid k where m: "correlationId m = Some cid" and u: "unresolved st cid = Some k"
      by (auto split: option.splits)
    have wf: "wf_rpc v4 (map snd (waiters st)) st" using i by (simp add: inv_def)
    have k: "timers st k \<noteq> None" using wf_rpcD(6)[OF wf u] .
    let ?st0 = "st\<lparr>unresolved := (unresolved st)(cid := None)\<rparr>"
    let ?st1 = "?st0\<lparr>timers := (timers ?st0)(k := None)\<rparr>"
    have h: "step v4 st ev = fst (reply_callback k m ?st0)"
      using ReplyDelivered m u by (simp add: handleReply_matched)
    have a: "kept n st ?st1" using n w by (simp add: kept_def)
    have b: "kept n st (settle k s ?st1)" for s using n w k by (auto simp: kept_def settle_def)
    from reply_callback_cases[of k m ?st0] show ?thesis
    proof
      assume "fst (reply_callback k m ?st0) = ?st1"
      then show ?thesis using a h by simp
    next
      assume "\<exists>s. fst (reply_callback k m ?st0) = settle k s ?st1"
      then obtain s where "fst (reply_callback k m ?st0) = settle k s ?st1" ..
      then show ?thesis using b[of s] h by simp
    qed
  qed
next
  case (TimeoutFired k)
  show ?thesis
  proof (cases "timers st k")
    case None
    then show ?thesis using TimeoutFired n w by (simp add: timeout_fired_idle kept_def)
  next
    case (Some tm)
    then show ?thesis using TimeoutFired n w by (auto simp: timeout_fired_armed kept_def settle_def)
  qed
next
  case (ConnectSettled j ok)
  have "kept n st (connect_settled j ok st)"
    by (rule kept_frame[OF n w]) (auto simp: connect_settled_def fail_def split: connect_stage.splits)
  then show ?thesis using ConnectSettled by simp
next
  case (CreateChannelSettled j ok)
  have "kept n st (createChannel_settled j ok st)"
    by (rule kept_frame[OF n w]) (auto simp: createChannel_settled_def fail_def split: connect_stage.splits)
  then show ?thesis using CreateChannelSettled by simp
next
  case (AssertQueueSettled j answer)
  have "kept n st (assertQueue_settled j answer st)"
    by (rule kept_frame[OF n w])
       (auto simp: assertQueue_settled_def fail_def Let_def split: connect_stage.splits option.splits)
  then show ?thesis using AssertQueueSettled by simp
next
  case (BindQueueSettled j ok)
  show ?thesis
  proof (cases "connects st j = AwaitBindQueue \<and> ok \<and> channel st \<noteq> None")
    case True
    then have ch: "channel st \<noteq> None" by simp
    have "step v4 st ev = fulfil v4 j st" using BindQueueSettled True by (simp add: bindQueue_settled_def)
    moreover have "kept n st (fulfil v4 j st)"
      using n w fulfil_fields[OF ch, of v4 j] fulfil_timers_other[OF ch w, of v4 j]
        waiting_filter_subset[of "\<lambda>w. fst w \<noteq> j" "waiters st"]
      by (auto simp: kept_def)
    ultimately show ?thesis by simp
  next
    case False
    have "kept n st (bindQueue_settled v4 j ok st)"
      by (rule kept_frame[OF n w]) (use False in \<open>auto simp: bindQueue_settled_def fail_def split: connect_stage.splits\<close>)
    then show ?thesis using BindQueueSettled by simp
  qed
next
  case (ChannelError c)
  have "kept n st (channel_error c st)"
    by (rule kept_frame[OF n w]) (auto simp: channel_error_def split: option.splits)
  then show ?thesis using ChannelError by simp
next
  case (RetryDelayElapsed j)
  have "kept n st (retry_delay_elapsed j st)"
    by (rule kept_frame[OF n w]) (auto simp: retry_delay_elapsed_def split: connect_stage.splits)
  then show ?thesis using RetryDelayElapsed by simp
qed

lemma kept_run:
  assumes "inv v4 st" "n < next_call st" "n \<notin> set (waiting (map snd (waiters st)))"
  shows "kept n st (run v4 st evs)"
  using assms
proof (induction evs arbitrary: st)
  case Nil
  then show ?case by (simp add: run_def kept_def)
next
  case (Cons ev evs)
  have k: "kept n st (step v4 st ev)" using Cons.prems by (rule kept_step)
  have "kept n (step v4 st ev) (run v4 (step v4 st ev) evs)"
    using Cons.IH[of "step v4 st ev"] Cons.prems(1) k by (simp add: inv_step kept_def)
  then show ?case using k by (auto simp: run_def kept_def)
qed

text \<open>A call waiting on a channel promise that has failed waits for ever.\<close>

lemma stuck_step:
  assumes i: "inv v4 st" and w: "(j, d) \<in> set (waiters st)" and f: "connects st j = Failed"
  shows "(j, d) \<in> set (waiters (step v4 st ev)) \<and> connects (step v4 st ev) j = Failed"
proof (cases ev)
  case (CallRpcExec key data options)
  then show ?thesis using w f by (auto simp: rpcExec_def waitForChannel_def Let_def)
next
  case (CallPublish key data options)
  then show ?thesis using w f by (auto simp: publish_def waitForChannel_def)
next
  case (CallConsume q cb options)
  then show ?thesis using w f by (auto simp: consume_def waitForChannel_def)
next
  case (ReplyDelivered m)
  have "waiters (fst (handleReply st m)) = waiters st \<and> connects (fst (handleReply st m)) = connects st"
    by (auto simp: handleReply_def reply_callback_def settle_def Let_def split: option.splits json.splits)
  then show ?thesis using ReplyDelivered w f by simp
next
  case (TimeoutFired k)
  then show ?thesis using w f by (auto simp: timeout_fired_def settle_def split: option.splits)
next
  case (ConnectSettled k ok)
  then show ?thesis using w f by (auto simp: connect_settled_def fail_def split: connect_stage.splits)
next
  case (CreateChannelSettled k ok)
  then show ?thesis using w f by (auto simp: createChannel_settled_def fail_def split: connect_stage.splits)
next
  case (AssertQueueSettled k answer)
  then show ?thesis using w f
    by (auto simp: assertQueue_settled_def fail_def Let_def split: connect_stage.splits option.splits)
next
  case (BindQueueSettled k ok)
  show ?thesis
  proof (cases "connects st k = AwaitBindQueue \<and> ok \<and> channel st \<noteq> None")
    case True
    then have ch: "channel st \<noteq> None" and kj: "k \<noteq> j" using f by auto
    have "step v4 st ev = fulfil v4 k st" using BindQueueSettled True by (simp add: bindQueue_settled_def)
    then show ?thesis using fulfil_fields[OF ch, of v4 k] w f kj by auto
  next
    case False
    then show ?thesis using BindQueueSettled w f
      by (auto simp: bindQueue_settled_def fail_def split: connect_stage.splits)
  qed
next
  case (ChannelError c)
  have "j < next_promise st" using i f unfolding inv_def wf_conn_def by (metis connect_stage.distinct(13) not_le_imp_less)
  then show ?thesis using ChannelError w f by (auto simp: channel_error_def split: option.splits)
next
  case (RetryDelayElapsed k)
  then show ?thesis using w f by (auto simp: retry_delay_elapsed_def split: connect_stage.splits)
qed

lemma stuck_run:
  assumes "inv v4 st" "(j, d) \<in> set (waiters st)" "connects st j = Failed"
  shows "(j, d) \<in> set (waiters (run v4 st evs)) \<and> connects (run v4 st evs) j = Failed"
  using assms
proof (induction evs arbitrary: st)
  case Nil
  then show ?case by (simp add: run_def)
next
  case (Cons ev evs)
  have "(j, d) \<in> set (waiters (step v4 st ev)) \<and> connects (step v4 st ev) j = Failed"
    using Cons.prems by (rule stuck_step)
  then show ?case using Cons.IH[of "step v4 st ev"] Cons.prems(1) by (simp add: inv_step run_def)
qed

lemma waiting_unsettled:
  assumes "inv v4 st" "(j, DRpcExec n key data options) \<in> set (waiters st)"
  shows "settlements st n = []"
proof -
  have "n \<in> set (waiting (map snd (waiters st)))"
    using assms(2) by (force simp: waiting_def)
  then show ?thesis using assms(1) wf_rpcD(11)[of v4 "map snd (waiters st)" st n] by (simp add: inv_def)
qed

text \<open>With ids that never repeat, every armed timer's call is registered.\<close>

lemma wf_fresh_exec:
  assumes "inj v4" "wf_fresh v4 st"
  shows "wf_fresh v4 (st\<lparr> timers := (timers st)(n \<mapsto> tmr), unresolved := (unresolved st)(v4 n \<mapsto> n),
                          transport := tr \<rparr>)"
  using assms unfolding wf_fresh_def by (auto dest: injD)

lemma wf_fresh_resume_ready:
  assumes "inj v4" "channel st \<noteq> None" "wf_fresh v4 st"
  shows "wf_fresh v4 (resume v4 st d)"
proof (cases d)
  case (DRpcExec n key data options)
  then show ?thesis
    using wf_fresh_exec[OF assms(1,3)] by (simp add: rpcExec_ready[OF assms(2)])
next
  case (DPublish key data options)
  then show ?thesis using assms(2,3) by (auto simp: publish_def wf_fresh_def)
next
  case (DConsume q cb options)
  then show ?thesis using assms(2,3) by (auto simp: consume_def wf_fresh_def)
qed

lemma wf_fresh_foldl_resume:
  assumes "inj v4" "channel st \<noteq> None" "wf_fresh v4 st"
  shows "wf_fresh v4 (foldl (resume v4) st ws)"
  using assms(2,3)
proof (induction ws arbitrary: st)
  case Nil
  then show ?case by simp
next
  case (Cons w ws)
  have "channel (resume v4 st w) \<noteq> None" using Cons.prems(1) resume_ready(2)[of st v4 w] by simp
  then show ?case
    using Cons.IH[of "resume v4 st w"] wf_fresh_resume_ready[OF assms(1) Cons.prems] by simp
qed

lemma wf_fresh_disarm:
  assumes "inj v4" "wf_fresh v4 st"
  shows "wf_fresh v4 (st\<lparr>timers := (timers st)(n := None), unresolved := (unresolved st)(v4 n := None)\<rparr>)"
  using assms unfolding wf_fresh_def by (auto dest: injD)

lemma wf_fresh_step:
  assumes j: "inj v4" and i: "inv v4 st" and f: "wf_fresh v4 st"
  shows "wf_fresh v4 (step v4 st ev)"
proof (cases ev)
  case (CallRpcExec key data options)
  show ?thesis
  proof (cases "channel st = None")
    case True
    then show ?thesis using CallRpcExec f by (simp add: rpcExec_deferred wf_fresh_def)
  next
    case False
    then have ch: "channel (st\<lparr>next_call := Suc (next_call st)\<rparr>) \<noteq> None" by simp
    show ?thesis
      using CallRpcExec f j unfolding wf_fresh_def by (auto simp: rpcExec_ready[OF ch] dest: injD)
  qed
next
  case (CallPublish key data options)
  then show ?thesis using f by (auto simp: publish_def waitForChannel_def wf_fresh_def)
next
  case (CallConsume q cb options)
  then show ?thesis using f by (auto simp: consume_def waitForChannel_def wf_fresh_def)
next
  case (ReplyDelivered m)
  show ?thesis
  proof (cases "case correlationId m of None \<Rightarrow> True | Some cid \<Rightarrow> unresolved st cid = None")
    case True
    then show ?thesis using ReplyDelivered f by (simp add: handleReply_unmatched)
  next
    case False
    then obtain cid k where m: "correlationId m = Some cid" and u: "unresolved st cid = Some k"
      by (auto split: option.splits)
    have wf: "wf_rpc v4 (map snd (waiters st)) st" using i by (simp add: inv_def)
    have c: "cid = v4 k" using wf_rpcD(5)[OF wf u] .
    let ?st0 = "st\<lparr>unresolved := (unresolved st)(cid := None)\<rparr>"
    let ?st1 = "?st0\<lparr>timers := (timers ?st0)(k := None)\<rparr>"
    have h: "step v4 st ev = fst (reply_callback k m ?st0)"
      using ReplyDelivered m u by (simp add: handleReply_matched)
    have a: "wf_fresh v4 ?st1" using wf_fresh_disarm[OF j f, of k] c by (simp add: wf_fresh_def)
    then have b: "wf_fresh v4 (settle k s ?st1)" for s by (simp add: wf_fresh_def settle_def)
    from reply_callback_cases[of k m ?st0] show ?thesis
    proof
      assume "fst (reply_callback k m ?st0) = ?st1"
      then show ?thesis using a h by simp
    next
      assume "\<exists>s. fst (reply_callback k m ?st0) = settle k s ?st1"
      then obtain s where "fst (reply_callback k m ?st0) = settle k s ?st1" ..
      then show ?thesis using b[of s] h by simp
    qed
  qed
next
  case (TimeoutFired k)
  show ?thesis
  proof (cases "timers st k")
    case None
    then show ?thesis using TimeoutFired f by (simp add: timeout_fired_idle)
  next
    case (Some tm)
    have wf: "wf_rpc v4 (map snd (waiters st)) st" using i by (simp add: inv_def)
    have c: "t_correlationId tm = v4 k" using wf_rpcD(3)[OF wf Some] .
    show ?thesis
      using TimeoutFired Some c wf_fresh_disarm[OF j f, of k]
      by (simp add: timeout_fired_armed settle_def wf_fresh_def)
  qed
next
  case (ConnectSettled k ok)
  have "wf_fresh v4 (connect_settled k ok st) = wf_fresh v4 st"
    by (rule wf_fresh_frame) (auto simp: connect_settled_def fail_def split: connect_stage.splits)
  then show ?thesis using ConnectSettled f by simp
next
  case (CreateChannelSettled k ok)
  have "wf_fresh v4 (createChannel_settled k ok st) = wf_fresh v4 st"
    by (rule wf_fresh_frame) (auto simp: createChannel_settled_def fail_def split: connect_stage.splits)
  then show ?thesis using CreateChannelSettled f by simp
next
  case (AssertQueueSettled k answer)
  have "wf_fresh v4 (assertQueue_settled k answer st) = wf_fresh v4 st"
    by (rule wf_fresh_frame)
       (auto simp: assertQueue_settled_def fail_def Let_def split: connect_stage.splits option.splits)
  then show ?thesis using AssertQueueSettled f by simp
next
  case (BindQueueSettled k ok)
  show ?thesis
  proof (cases "connects st k = AwaitBindQueue \<and> ok \<and> channel st \<noteq> None")
    case True
    let ?st0 = "st\<lparr>connects := (connects st)(k := Fulfilled), waiters := filter (\<lambda>w. fst w \<noteq> k) (waiters st)\<rparr>"
    have ch: "channel ?st0 \<noteq> None" using True by simp
    have "wf_fresh v4 ?st0" using f by (simp add: wf_fresh_def)
    then have "wf_fresh v4 (fulfil v4 k st)"
      using wf_fresh_foldl_resume[OF j ch] by (simp add: fulfil_def)
    then show ?thesis using BindQueueSettled True by (simp add: bindQueue_settled_def)
  next
    case False
    have "wf_fresh v4 (bindQueue_settled v4 k ok st) = wf_fresh v4 st"
      by (rule wf_fresh_frame)
         (use False in \<open>auto simp: bindQueue_settled_def fail_def split: connect_stage.splits\<close>)
    then show ?thesis using BindQueueSettled f by simp
  qed
next
  case (ChannelError c)
  have "wf_fresh v4 (channel_error c st) = wf_fresh v4 st"
    by (rule wf_fresh_frame) (auto simp: channel_error_def split: option.splits)
  then show ?thesis using ChannelError f by simp
next
  case (RetryDelayElapsed k)
  have "wf_fresh v4 (retry_delay_elapsed k st) = wf_fresh v4 st"
    by (rule wf_fresh_frame) (auto simp: retry_delay_elapsed_def split: connect_stage.splits)
  then show ?thesis using RetryDelayElapsed f by simp
qed

lemma wf_fresh_run:
  assumes "inj v4" "inv v4 st" "wf_fresh v4 st"
  shows "wf_fresh v4 (run v4 st evs)"
  using assms(2,3)
proof (induction evs arbitrary: st)
  case Nil
  then show ?case by (simp add: run_def)
next
  case (Cons ev evs)
  then show ?case
    using Cons.IH[of "step v4 st ev"] wf_fresh_step[OF assms(1) Cons.prems] inv_step[OF Cons.prems(1)]
    by (simp add: run_def)
qed

lemma wf_fresh_reachable:
  assumes "inj v4"
  shows "wf_fresh v4 (run v4 (Msgr_new url exch options) evs)"
  by (rule wf_fresh_run[OF assms inv_new]) (simp add: wf_fresh_def Msgr_new_def)

section \<open>What one task does\<close>

lemma run_append: "run v4 st (xs @ ys) = run v4 (run v4 st xs) ys"
  by (simp add: run_def)

lemma waiting_iff:
  "n \<in> set (waiting (map snd ws)) \<longleftrightarrow> (\<exists>j key data options. (j, DRpcExec n key data options) \<in> set ws)"
proof (induction ws)
  case Nil
  then show ?case by simp
next
  case (Cons w ws)
  obtain i d where w: "w = (i, d)" by (cases w)
  show ?case using Cons by (cases d) (auto simp: w)
qed

lemma reply_disarms:
  assumes "correlationId m = Some cid" "unresolved st cid = Some n"
  shows "unresolved (step v4 st (ReplyDelivered m)) cid = None"
    and "timers (step v4 st (ReplyDelivered m)) n = None"
proof -
  let ?st0 = "st\<lparr>unresolved := (unresolved st)(cid := None)\<rparr>"
  have h: "step v4 st (ReplyDelivered m) = fst (reply_callback n m ?st0)"
    using assms by (simp add: handleReply_matched)
  show "unresolved (step v4 st (ReplyDelivered m)) cid = None"
    using reply_callback_cases[of n m ?st0] h by (auto simp: settle_def)
  show "timers (step v4 st (ReplyDelivered m)) n = None"
    using reply_callback_cases[of n m ?st0] h by (auto simp: settle_def)
qed

lemma call_arms_timer:
  assumes "channel st \<noteq> None"
  shows "timers (step v4 st (CallRpcExec key data options)) (next_call st)
           = Some \<lparr>t_correlationId = v4 (next_call st), t_timeout = effective_timeout options\<rparr>"
    and "waiters (step v4 st (CallRpcExec key data options)) = waiters st"
    and "next_call (step v4 st (CallRpcExec key data options)) = Suc (next_call st)"
proof -
  have ch: "channel (st\<lparr>next_call := Suc (next_call st)\<rparr>) \<noteq> None" using assms by simp
  show "timers (step v4 st (CallRpcExec key data options)) (next_call st)
           = Some \<lparr>t_correlationId = v4 (next_call st), t_timeout = effective_timeout options\<rparr>"
    and "waiters (step v4 st (CallRpcExec key data options)) = waiters st"
    and "next_call (step v4 st (CallRpcExec key data options)) = Suc (next_call st)"
    by (simp_all add: rpcExec_ready[OF ch])
qed

text \<open>
  A call made while the channel field is empty is stored, in order, behind the current
  channel promise; when that promise is fulfilled its calls are made on the channel in the
  order they were stored.
\<close>

lemma deferred_until_ready:
  assumes "channel st = None"
  shows "step v4 st (CallRpcExec key data options)
           = st\<lparr> next_call := Suc (next_call st),
                  waiters := waiters st @ [(channelPromise st, DRpcExec (next_call st) key data options)] \<rparr>"
    and "step v4 st (CallPublish key data po)
           = st\<lparr>waiters := waiters st @ [(channelPromise st, DPublish key data po)]\<rparr>"
    and "step v4 st (CallConsume q cb co)
           = st\<lparr>waiters := waiters st @ [(channelPromise st, DConsume q cb co)]\<rparr>"
  using assms by (simp_all add: rpcExec_def publish_def consume_def waitForChannel_def)

lemma resume_transport:
  assumes "channel st \<noteq> None"
  shows "transport (resume v4 st d) = transport st @ [resumed_call v4 st d]"
    and "exchange (resume v4 st d) = exchange st" and "replyQueue (resume v4 st d) = replyQueue st"
  using assms by (cases d; auto simp: rpcExec_def publish_def consume_def Let_def)+

lemma foldl_resume_transport:
  assumes "channel st \<noteq> None"
  shows "transport (foldl (resume v4) st ws) = transport st @ map (resumed_call v4 st) ws"
  using assms
proof (induction ws arbitrary: st)
  case Nil
  then show ?case by simp
next
  case (Cons w ws)
  have ch: "channel (resume v4 st w) \<noteq> None" using Cons.prems resume_ready(2)[of st v4 w] by simp
  have "resumed_call v4 (resume v4 st w) = resumed_call v4 st"
  proof
    fix d
    show "resumed_call v4 (resume v4 st w) d = resumed_call v4 st d"
      using resume_transport(2,3)[OF Cons.prems, of v4 w] by (cases d) simp_all
  qed
  then show ?case
    using Cons.IH[OF ch] resume_transport(1)[OF Cons.prems, of v4 w] by simp
qed

lemma resumed_in_order:
  assumes "connects st i = AwaitBindQueue" "channel st \<noteq> None"
  shows "transport (step v4 st (BindQueueSettled i True))
           = transport st @ map (resumed_call v4 st) (map snd (filter (\<lambda>w. fst w = i) (waiters st)))"
    and "waiters (step v4 st (BindQueueSettled i True)) = filter (\<lambda>w. fst w \<noteq> i) (waiters st)"
proof -
  let ?st0 = "st\<lparr>connects := (connects st)(i := Fulfilled), waiters := filter (\<lambda>w. fst w \<noteq> i) (waiters st)\<rparr>"
  have ch: "channel ?st0 \<noteq> None" using assms(2) by simp
  have r: "resumed_call v4 ?st0 = resumed_call v4 st"
  proof
    fix d
    show "resumed_call v4 ?st0 d = resumed_call v4 st d" by (cases d) simp_all
  qed
  show "transport (step v4 st (BindQueueSettled i True))
           = transport st @ map (resumed_call v4 st) (map snd (filter (\<lambda>w. fst w = i) (waiters st)))"
    using assms foldl_resume_transport[OF ch, of v4] r by (simp add: bindQueue_settled_def fulfil_def)
  show "waiters (step v4 st (BindQueueSettled i True)) = filter (\<lambda>w. fst w \<noteq> i) (waiters st)"
    using assms fulfil_fields(1)[OF assms(2), of v4 i] by (simp add: bindQueue_settled_def)
qed

section \<open>The concrete run, evaluated\<close>

lemma inj_demo_uuid: "inj demo_uuid"
  by (simp add: inj_def demo_uuid_def)

lemma demo_client_new:
  "demo_client = Msgr_new ''amqp://broker'' None \<lparr>maxConnectionAttempts = None, connectionRetryInterval = None\<rparr>"
  by (simp add: demo_client_def)

lemma demo_ready: "run demo_uuid demo_client demo_setup = demo_ready_state"
  by (simp add: run_def demo_client_def demo_setup_def Msgr_new_def connect_settled_def
      createChannel_settled_def assertQueue_settled_def bindQueue_settled_def fulfil_def fail_def
      Let_def demo_ready_state_def)

lemma demo_called: "run demo_uuid demo_client (demo_setup @ [demo_call]) = demo_pending_state"
proof -
  have "run demo_uuid demo_client (demo_setup @ [demo_call])
        = step demo_uuid (run demo_uuid demo_client demo_setup) demo_call"
    by (simp add: run_def)
  then show ?thesis
    unfolding demo_ready
    by (simp add: demo_call_def rpcExec_def Let_def demo_ready_state_def demo_pending_state_def
        demo_uuid_def effective_timeout_def sendOptions_def DEFAULT_SEND_OPTIONS_def)
qed

lemma demo_exhausted:
  "run demo_uuid demo_client_two demo_exhaust =
     \<lparr> opt_maxConnectionAttempts = 2, opt_connectionRetryInterval = 1000, exchange = ''msgr'',
       channelPromise = 1, channel = None, replyQueue = None,
       unresolved = Map.empty,
       connects = (\<lambda>i. NotStarted)(0 := AwaitAssertQueue, 1 := Failed),
       errorHandlers = Map.empty, waiters = [(1, demo_deferred)], timers = Map.empty,
       settlements = (\<lambda>n. []), transport = [], next_call = 1, next_promise = 2 \<rparr>"
  by (simp add: run_def demo_client_two_def demo_exhaust_def demo_call_def demo_deferred_def
      Msgr_new_def connect_settled_def createChannel_settled_def channel_error_def
      retry_delay_elapsed_def rpcExec_def waitForChannel_def fail_def fun_upd_twist)

lemma demo_lost_state:
  "run demo_uuid demo_client demo_lost =
     \<lparr> opt_maxConnectionAttempts = 50, opt_connectionRetryInterval = 1000, exchange = ''msgr'',
       channelPromise = 1, channel = Some 1, replyQueue = Some ''amq.gen-2'',
       unresolved = Map.empty,
       connects = (\<lambda>i. NotStarted)(0 := Failed, 1 := Fulfilled),
       errorHandlers = [1 \<mapsto> 2], waiters = [(0, demo_deferred)], timers = Map.empty,
       settlements = (\<lambda>n. []), transport = [], next_call = 1, next_promise = 2 \<rparr>"
  by (simp add: run_def demo_client_def demo_lost_def demo_call_def demo_deferred_def
      Msgr_new_def connect_settled_def createChannel_settled_def assertQueue_settled_def
      bindQueue_settled_def fulfil_def channel_error_def Let_def
      retry_delay_elapsed_def rpcExec_def waitForChannel_def fail_def fun_upd_twist)

lemma reply_callback_envelope:
  assumes "content m = Some response" "response \<noteq> JNull"
  shows "reply_callback n m st =
           (settle n
              (if truthy (get response ''error'') \<and> truthy (get response ''trace'')
               then Rejected (Error ''Fatal consumer error'')
               else if truthy (get response ''error'')
               then Rejected (ClientError ''Client error'' (get response ''data''))
               else Resolved (get response ''data''))
              (st\<lparr>timers := (timers st)(n := None)\<rparr>), None)"
  using assms by (cases response) (simp_all add: reply_callback_def Let_def)

lemma reply_outcome:
  assumes "inv v4 st"
    and "correlationId m = Some cid" and "unresolved st cid = Some n"
    and "content m = Some response" and "response \<noteq> JNull"
  shows "settlements (step v4 st (ReplyDelivered m)) n =
           [if truthy (get response ''error'') \<and> truthy (get response ''trace'')
            then Rejected (Error ''Fatal consumer error'')
            else if truthy (get response ''error'')
            then Rejected (ClientError ''Client error'' (get response ''data''))
            else Resolved (get response ''data'')]
         \<and> snd (handleReply st m) = None"
proof -
  have w: "wf_rpc v4 (map snd (waiters st)) st" using assms(1) by (simp add: inv_def)
  obtain tm where "timers st n = Some tm" using wf_rpcD(6)[OF w assms(3)] by auto
  then have "settlements st n = []" using wf_rpcD(1)[OF w] by simp
  then show ?thesis
    using handleReply_matched[OF assms(2,3)] reply_callback_envelope[OF assms(4,5)]
    by (simp add: settle_def)
qed

lemma null_reply_never_settles:
  "settlements (run demo_uuid demo_client (demo_setup @ [demo_call, ReplyDelivered demo_null] @ evs)) 0 = []"
proof -
  let ?st = "run demo_uuid demo_client (demo_setup @ [demo_call, ReplyDelivered demo_null])"
  have s: "?st = step demo_uuid demo_pending_state (ReplyDelivered demo_null)"
    using demo_called by (simp add: run_def)
  have i: "inv demo_uuid ?st" unfolding demo_client_new by (rule inv_reachable)
  have a: "0 < next_call ?st" "0 \<notin> set (waiting (map snd (waiters ?st)))" "timers ?st 0 = None"
    "settlements ?st 0 = []"
    unfolding s
    by (simp_all add: demo_pending_state_def demo_ready_state_def demo_null_def handleReply_def
        reply_callback_def)
  have "kept 0 ?st (run demo_uuid ?st evs)" using i a(1,2) by (rule kept_run)
  then have "settlements (run demo_uuid ?st evs) 0 = []" using a(3,4) by (simp add: kept_def)
  then show ?thesis using run_append[of demo_uuid demo_client "demo_setup @ [demo_call, ReplyDelivered demo_null]" evs]
    by simp
qed

section \<open>Timers, replies and settlements\<close>

lemma timeout_error_safe:
  "\<bar>t\<bar> < 2 ^ 53 \<Longrightarrow> 0 \<le> t \<Longrightarrow>
     timeout_error t = Error (''RPC Server failed to respond before the configured timeout (''
                               @ digits (nat t) @ ''ms)'')"
  by (simp add: timeout_error_def number_to_string_def)

lemma timeout_error_demo:
  "timeout_error 50 = Error ''RPC Server failed to respond before the configured timeout (50ms)''"
  "timeout_error 15000 = Error ''RPC Server failed to respond before the configured timeout (15000ms)''"
  "timeout_error (10 ^ 21) = TimeoutErrorUnprinted (10 ^ 21)"
  by (simp_all add: timeout_error_def number_to_string_def digits.simps)

text \<open>An armed timer stays armed until it fires or a reply with its id is handled.\<close>

lemma armed_step:
  assumes i: "inv v4 st" and t: "timers st n = Some tm" and q: "quiet (v4 n) n ev"
  shows "timers (step v4 st ev) n = Some tm"
proof -
  have w: "wf_rpc v4 (map snd (waiters st)) st" using i by (simp add: inv_def)
  have n: "n < next_call st" using wf_rpcD(2)[OF w t] .
  have nw: "n \<notin> set (waiting (map snd (waiters st)))" using wf_rpcD(4)[OF w t] .
  show ?thesis
  proof (cases ev)
    case (CallRpcExec key data options)
    show ?thesis
    proof (cases "channel st = None")
      case True
      then show ?thesis using CallRpcExec t by (simp add: rpcExec_deferred)
    next
      case False
      then have "channel (st\<lparr>next_call := Suc (next_call st)\<rparr>) \<noteq> None" by simp
      then show ?thesis using CallRpcExec t n by (simp add: rpcExec_ready)
    qed
  next
    case (CallPublish key data options)
    then show ?thesis using t by (auto simp: publish_def waitForChannel_def)
  next
    case (CallConsume qn cb options)
    then show ?thesis using t by (auto simp: consume_def waitForChannel_def)
  next
    case (ReplyDelivered m)
    show ?thesis
    proof (cases "case correlationId m of None \<Rightarrow> True | Some cid \<Rightarrow> unresolved st cid = None")
      case True
      then show ?thesis using ReplyDelivered t by (simp add: handleReply_unmatched)
    next
      case False
      then obtain cid k where m: "correlationId m = Some cid" and u: "unresolved st cid = Some k"
        by (auto split: option.splits)
      have "cid = v4 k" using wf_rpcD(5)[OF w u] .
      then have kn: "k \<noteq> n" using q m ReplyDelivered by auto
      let ?st0 = "st\<lparr>unresolved := (unresolved st)(cid := None)\<rparr>"
      have h: "step v4 st ev = fst (reply_callback k m ?st0)"
        using ReplyDelivered m u by (simp add: handleReply_matched)
      show ?thesis using reply_callback_cases[of k m ?st0] h kn t by (auto simp: settle_def)
    qed
  next
    case (TimeoutFired k)
    then have kn: "k \<noteq> n" using q by simp
    show ?thesis
    proof (cases "timers st k")
      case None
      then show ?thesis using TimeoutFired t by (simp add: timeout_fired_idle)
    next
      case (Some tk)
      then show ?thesis using TimeoutFired t kn by (simp add: timeout_fired_armed settle_def)
    qed
  next
    case (ConnectSettled j ok)
    have "timers (connect_settled j ok st) = timers st"
      by (auto simp: connect_settled_def fail_def split: connect_stage.splits)
    then show ?thesis using ConnectSettled t by simp
  next
    case (CreateChannelSettled j ok)
    have "timers (createChannel_settled j ok st) = timers st"
      by (auto simp: createChannel_settled_def fail_def split: connect_stage.splits)
    then show ?thesis using CreateChannelSettled t by simp
  next
    case (AssertQueueSettled j answer)
    have "timers (assertQueue_settled j answer st) = timers st"
      by (auto simp: assertQueue_settled_def fail_def Let_def split: connect_stage.splits option.splits)
    then show ?thesis using AssertQueueSettled t by simp
  next
    case (BindQueueSettled j ok)
    show ?thesis
    proof (cases "connects st j = AwaitBindQueue \<and> ok \<and> channel st \<noteq> None")
      case True
      then have ch: "channel st \<noteq> None" by simp
      have "step v4 st ev = fulfil v4 j st" using BindQueueSettled True by (simp add: bindQueue_settled_def)
      then show ?thesis using fulfil_timers_other[OF ch nw, of v4 j] t by simp
    next
      case False
      then have "timers (bindQueue_settled v4 j ok st) = timers st"
        by (auto simp: bindQueue_settled_def fail_def split: connect_stage.splits)
      then show ?thesis using BindQueueSettled t by simp
    qed
  next
    case (ChannelError c)
    have "timers (channel_error c st) = timers st"
      by (auto simp: channel_error_def split: option.splits)
    then show ?thesis using ChannelError t by simp
  next
    case (RetryDelayElapsed j)
    have "timers (retry_delay_elapsed j st) = timers st"
      by (auto simp: retry_delay_elapsed_def split: connect_stage.splits)
    then show ?thesis using RetryDelayElapsed t by simp
  qed
qed

lemma armed_run:
  assumes "inv v4 st" "timers st n = Some tm" "list_all (quiet (v4 n) n) evs"
  shows "timers (run v4 st evs) n = Some tm"
  using assms
proof (induction evs arbitrary: st)
  case Nil
  then show ?case by (simp add: run_def)
next
  case (Cons ev evs)
  have "timers (step v4 st ev) n = Some tm" using Cons.prems by (intro armed_step) simp_all
  then show ?case using Cons.IH[of "step v4 st ev"] Cons.prems by (simp add: inv_step run_def)
qed

lemma armed_timer_rejects:
  assumes "inv v4 st" "timers st n = Some tm" "list_all (quiet (v4 n) n) evs"
  shows "settlements (step v4 (run v4 st evs) (TimeoutFired n)) n = [Rejected (timeout_error (t_timeout tm))]"
proof -
  have t: "timers (run v4 st evs) n = Some tm" using assms by (rule armed_run)
  have "inv v4 (run v4 st evs)" using assms(1) by (rule inv_run)
  then have "wf_rpc v4 (map snd (waiters (run v4 st evs))) (run v4 st evs)" by (simp add: inv_def)
  then have "settlements (run v4 st evs) n = []" using t by (rule wf_rpcD(1))
  then show ?thesis using t by (simp add: timeout_fired_armed settle_def)
qed

lemma timeout_rejects_unanswered_call:
  assumes "st = run v4 (Msgr_new url exch copts) evs" and "channel st \<noteq> None"
    and "list_all (quiet (v4 (next_call st)) (next_call st)) evs'"
  shows "settlements
           (step v4 (run v4 (step v4 st (CallRpcExec key data options)) evs')
              (TimeoutFired (next_call st))) (next_call st)
         = [Rejected (timeout_error (case timeout options of None \<Rightarrow> 15000
                                     | Some t \<Rightarrow> if t \<noteq> 0 then t else 15000))]"
proof -
  have "inv v4 st" using inv_reachable[of v4 url exch copts evs] assms(1) by simp
  then have i1: "inv v4 (step v4 st (CallRpcExec key data options))" by (rule inv_step)
  show ?thesis
    using armed_timer_rejects[OF i1 call_arms_timer(1)[OF assms(2), of v4 key data options] assms(3)]
    by (simp add: effective_timeout_def)
qed

lemma resume_keeps_armed:
  assumes "channel st \<noteq> None" "timers st n \<noteq> None"
  shows "timers (resume v4 st d) n \<noteq> None"
  using assms by (cases d) (auto simp: rpcExec_def publish_def consume_def Let_def)

lemma foldl_resume_keeps_armed:
  assumes "channel st \<noteq> None" "timers st n \<noteq> None"
  shows "timers (foldl (resume v4) st ws) n \<noteq> None"
  using assms
proof (induction ws arbitrary: st)
  case Nil
  then show ?case by simp
next
  case (Cons w ws)
  have "channel (resume v4 st w) \<noteq> None" using Cons.prems(1) resume_ready(2)[of st v4 w] by simp
  then show ?case using Cons.IH[of "resume v4 st w"] resume_keeps_armed[OF Cons.prems, of v4 w] by simp
qed

lemma resume_arms:
  assumes "channel st \<noteq> None" "n \<in> set (rpc_id d)"
  shows "timers (resume v4 st d) n \<noteq> None"
  using assms by (cases d) (auto simp: rpcExec_def Let_def)

lemma foldl_resume_arms:
  assumes "channel st \<noteq> None" "n \<in> set (waiting ws)"
  shows "timers (foldl (resume v4) st ws) n \<noteq> None"
  using assms
proof (induction ws arbitrary: st)
  case Nil
  then show ?case by simp
next
  case (Cons w ws)
  have ch: "channel (resume v4 st w) \<noteq> None" using Cons.prems(1) resume_ready(2)[of st v4 w] by simp
  have "n \<in> set (rpc_id w) \<or> n \<in> set (waiting ws)" using Cons.prems(2) by (simp add: waiting_def)
  then show ?case
  proof
    assume "n \<in> set (rpc_id w)"
    then have "timers (resume v4 st w) n \<noteq> None" using Cons.prems(1) by (intro resume_arms)
    then show ?thesis using foldl_resume_keeps_armed[OF ch, of n v4 ws] by simp
  next
    assume "n \<in> set (waiting ws)"
    then show ?thesis using Cons.IH[OF ch] by simp
  qed
qed

lemma fulfil_arms:
  assumes "channel st \<noteq> None" "n \<in> set (waiting (map snd (filter (\<lambda>w. fst w = i) (waiters st))))"
  shows "timers (fulfil v4 i st) n \<noteq> None"
proof -
  let ?st0 = "st\<lparr>connects := (connects st)(i := Fulfilled), waiters := filter (\<lambda>w. fst w \<noteq> i) (waiters st)\<rparr>"
  have ch: "channel ?st0 \<noteq> None" using assms(1) by simp
  show ?thesis using foldl_resume_arms[OF ch assms(2), of v4] by (simp add: fulfil_def)
qed

lemma waiting_split:
  "set (waiting (map snd ws)) =
     set (waiting (map snd (filter P ws))) \<union> set (waiting (map snd (filter (\<lambda>w. \<not> P w) ws)))"
proof -
  have "set_mset (mset (waiting (map snd ws)))
      = set_mset (mset (waiting (map snd (filter P ws))) + mset (waiting (map snd (filter (\<lambda>w. \<not> P w) ws))))"
    using waiting_partition[of P ws] by simp
  then show ?thesis by simp
qed

text \<open>
  While every reply delivered has a body that parses to a value other than null, a call
  that was made is waiting for a channel, or its timer is armed and its promise unsettled,
  or its timer is disarmed and its promise settled exactly once.
\<close>

lemma pending_or_settled_step:
  assumes i: "inv v4 st" and p: "\<forall>n < next_call st. pending_or_settled st n" and wfm: "wellformed ev"
  shows "\<forall>n < next_call (step v4 st ev). pending_or_settled (step v4 st ev) n"
proof (intro allI impI)
  fix n
  assume n': "n < next_call (step v4 st ev)"
  have w: "wf_rpc v4 (map snd (waiters st)) st" using i by (simp add: inv_def)
  have frame: "pending_or_settled st' n"
    if "waiters st' = waiters st" "timers st' = timers st" "settlements st' = settlements st"
      "next_call st' = next_call st" "n < next_call st'" for st'
    using p that by (simp add: pending_or_settled_def)
  show "pending_or_settled (step v4 st ev) n"
  proof (cases ev)
    case (CallRpcExec key data options)
    have nn: "n < next_call st \<or> n = next_call st"
      using n' CallRpcExec by (auto simp: rpcExec_def waitForChannel_def Let_def split: if_splits)
    show ?thesis
    proof (cases "channel st = None")
      case True
      then show ?thesis using CallRpcExec nn p
        by (auto simp: rpcExec_deferred pending_or_settled_def)
    next
      case False
      then have ch: "channel (st\<lparr>next_call := Suc (next_call st)\<rparr>) \<noteq> None" by simp
      have "settlements st (next_call st) = []" using wf_rpcD(8)[OF w, of "next_call st"] by simp
      then show ?thesis using CallRpcExec nn p
        by (auto simp: rpcExec_ready[OF ch] pending_or_settled_def)
    qed
  next
    case (CallPublish key data options)
    then show ?thesis using n' p by (auto simp: publish_def waitForChannel_def pending_or_settled_def)
  next
    case (CallConsume qn cb options)
    then show ?thesis using n' p by (auto simp: consume_def waitForChannel_def pending_or_settled_def)
  next
    case (ReplyDelivered m)
    show ?thesis
    proof (cases "case correlationId m of None \<Rightarrow> True | Some cid \<Rightarrow> unresolved st cid = None")
      case True
      then show ?thesis using ReplyDelivered n' p by (simp add: handleReply_unmatched)
    next
      case False
      then obtain cid k where m: "correlationId m = Some cid" and u: "unresolved st cid = Some k"
        by (auto split: option.splits)
      obtain r where r: "content m = Some r" "r \<noteq> JNull"
        using wfm ReplyDelivered by (auto split: option.splits)
      obtain tk where tk: "timers st k = Some tk" using wf_rpcD(6)[OF w u] by auto
      have e: "settlements st k = []" using wf_rpcD(1)[OF w tk] .
      let ?st0 = "st\<lparr>unresolved := (unresolved st)(cid := None)\<rparr>"
      obtain s where h: "step v4 st ev = settle k s (?st0\<lparr>timers := (timers ?st0)(k := None)\<rparr>)"
        using ReplyDelivered handleReply_matched[OF m u] reply_callback_envelope[OF r, of k ?st0]
        by simp
      have nl: "n < next_call st" using n' h by (simp add: settle_def)
      show ?thesis
      proof (cases "n = k")
        case True
        then show ?thesis using h e by (simp add: pending_or_settled_def settle_def)
      next
        case False
        then show ?thesis using h p nl by (simp add: pending_or_settled_def settle_def)
      qed
    qed
  next
    case (TimeoutFired k)
    show ?thesis
    proof (cases "timers st k")
      case None
      then show ?thesis using TimeoutFired n' p by (simp add: timeout_fired_idle)
    next
      case (Some tk)
      have e: "settlements st k = []" using wf_rpcD(1)[OF w Some] .
      have nl: "n < next_call st" using n' TimeoutFired Some by (simp add: timeout_fired_armed settle_def)
      show ?thesis
      proof (cases "n = k")
        case True
        then show ?thesis using TimeoutFired Some e
          by (simp add: timeout_fired_armed pending_or_settled_def settle_def)
      next
        case False
        then show ?thesis using TimeoutFired Some p nl
          by (simp add: timeout_fired_armed pending_or_settled_def settle_def)
      qed
    qed
  next
    case (ConnectSettled j ok)
    have "pending_or_settled (connect_settled j ok st) n"
      by (rule frame) (use n' ConnectSettled in \<open>auto simp: connect_settled_def fail_def split: connect_stage.splits\<close>)
    then show ?thesis using ConnectSettled by simp
  next
    case (CreateChannelSettled j ok)
    have "pending_or_settled (createChannel_settled j ok st) n"
      by (rule frame) (use n' CreateChannelSettled in \<open>auto simp: createChannel_settled_def fail_def split: connect_stage.splits\<close>)
    then show ?thesis using CreateChannelSettled by simp
  next
    case (AssertQueueSettled j answer)
    have "pending_or_settled (assertQueue_settled j answer st) n"
      by (rule frame) (use n' AssertQueueSettled in \<open>auto simp: assertQueue_settled_def fail_def Let_def split: connect_stage.splits option.splits\<close>)
    then show ?thesis using AssertQueueSettled by simp
  next
    case (BindQueueSettled j ok)
    show ?thesis
    proof (cases "connects st j = AwaitBindQueue \<and> ok \<and> channel st \<noteq> None")
      case True
      then have ch: "channel st \<noteq> None" by simp
      have s: "step v4 st ev = fulfil v4 j st" using BindQueueSettled True by (simp add: bindQueue_settled_def)
      note ff = fulfil_fields[OF ch, of v4 j]
      have nl: "n < next_call st" using n' s ff(3) by simp
      then have pn: "pending_or_settled st n" using p by simp
      show ?thesis
      proof (cases "n \<in> set (waiting (map snd (waiters st)))")
        case False
        then show ?thesis using pn s ff(1,2) fulfil_timers_other[OF ch False, of v4 j]
          by (simp add: pending_or_settled_def)
      next
        case True
        have e: "settlements st n = []" using wf_rpcD(11)[OF w True] .
        from True have "n \<in> set (waiting (map snd (filter (\<lambda>w. fst w = j) (waiters st))))
            \<or> n \<in> set (waiting (map snd (filter (\<lambda>w. \<not> fst w = j) (waiters st))))"
          using waiting_split[of "waiters st" "\<lambda>w. fst w = j"] by blast
        then show ?thesis
        proof
          assume "n \<in> set (waiting (map snd (filter (\<lambda>w. fst w = j) (waiters st))))"
          then have "timers (fulfil v4 j st) n \<noteq> None" using ch by (intro fulfil_arms)
          then show ?thesis using s ff(2) e by (simp add: pending_or_settled_def)
        next
          assume "n \<in> set (waiting (map snd (filter (\<lambda>w. \<not> fst w = j) (waiters st))))"
          then show ?thesis using s ff(1) by (simp add: pending_or_settled_def)
        qed
      qed
    next
      case False
      have "pending_or_settled (bindQueue_settled v4 j ok st) n"
        by (rule frame) (use n' BindQueueSettled False in \<open>auto simp: bindQueue_settled_def fail_def split: connect_stage.splits\<close>)
      then show ?thesis using BindQueueSettled by simp
    qed
  next
    case (ChannelError c)
    have "pending_or_settled (channel_error c st) n"
      by (rule frame) (use n' ChannelError in \<open>auto simp: channel_error_def split: option.splits\<close>)
    then show ?thesis using ChannelError by simp
  next
    case (RetryDelayElapsed j)
    have "pending_or_settled (retry_delay_elapsed j st) n"
      by (rule frame) (use n' RetryDelayElapsed in \<open>auto simp: retry_delay_elapsed_def split: connect_stage.splits\<close>)
    then show ?thesis using RetryDelayElapsed by simp
  qed
qed

lemma pending_or_settled_run:
  assumes "inv v4 st" "\<forall>n < next_call st. pending_or_settled st n" "list_all wellformed evs"
  shows "\<forall>n < next_call (run v4 st evs). pending_or_settled (run v4 st evs) n"
  using assms
proof (induction evs arbitrary: st)
  case Nil
  then show ?case by (simp add: run_def)
next
  case (Cons ev evs)
  have "\<forall>n < next_call (step v4 st ev). pending_or_settled (step v4 st ev) n"
    using Cons.prems by (intro pending_or_settled_step) simp_all
  then show ?case using Cons.IH[of "step v4 st ev"] Cons.prems by (simp add: inv_step run_def)
qed

lemma settled_exactly_once_when_wellformed:
  assumes "list_all wellformed evs" "n < next_call (run v4 (Msgr_new url exch copts) evs)"
  shows "pending_or_settled (run v4 (Msgr_new url exch copts) evs) n"
proof -
  let ?st0 = "Msgr_new url exch copts"
  have a: "inv v4 ?st0" by (rule inv_new)
  have b: "\<forall>n < next_call ?st0. pending_or_settled ?st0 n" by (simp add: Msgr_new_def)
  show ?thesis using pending_or_settled_run[OF a b assms(1)] assms(2) by simp
qed

lemma settled_at_most_once: "length (settlements (run v4 (Msgr_new url exch copts) evs) n) \<le> 1"
proof -
  have "wf_rpc v4 (map snd (waiters (run v4 (Msgr_new url exch copts) evs))) (run v4 (Msgr_new url exch copts) evs)"
    using inv_reachable[of v4 url exch copts evs] by (simp add: inv_def)
  then show ?thesis by (rule wf_rpcD(7))
qed

lemma waiting_filter_distinct:
  "distinct (waiting (map snd ws)) \<Longrightarrow> distinct (waiting (map snd (filter P ws)))"
proof (induction ws)
  case Nil
  then show ?case by simp
next
  case (Cons w ws)
  obtain i d where w: "w = (i, d)" by (cases w)
  show ?case
  proof (cases d)
    case (DRpcExec n key data options)
    then show ?thesis
      using Cons w waiting_filter_subset[of P ws] by auto
  next
    case (DPublish key data options)
    then show ?thesis using Cons w by auto
  next
    case (DConsume qn cb options)
    then show ?thesis using Cons w by auto
  qed
qed

lemma foldl_resume_arms_with:
  assumes "channel st \<noteq> None" "distinct (waiting ws)" "DRpcExec n key data options \<in> set ws"
  shows "timers (foldl (resume v4) st ws) n
           = Some \<lparr>t_correlationId = v4 n, t_timeout = effective_timeout options\<rparr>"
  using assms
proof (induction ws arbitrary: st)
  case Nil
  then show ?case by simp
next
  case (Cons w ws)
  have ch: "channel (resume v4 st w) \<noteq> None" using Cons.prems(1) resume_ready(2)[of st v4 w] by simp
  have d: "distinct (waiting ws)" using Cons.prems(2) by (simp add: waiting_def)
  show ?case
  proof (cases "w = DRpcExec n key data options")
    case True
    then have "n \<notin> set (waiting ws)" using Cons.prems(2) by simp
    then have "timers (foldl (resume v4) (resume v4 st w) ws) n = timers (resume v4 st w) n"
      using ch by (intro foldl_resume_timers_other)
    then show ?thesis using True Cons.prems(1) by (simp add: rpcExec_ready)
  next
    case False
    then have "DRpcExec n key data options \<in> set ws" using Cons.prems(3) by simp
    then show ?thesis using Cons.IH[OF ch d] by simp
  qed
qed

text \<open>A waiting call whose channel promise is fulfilled arms its timer then, and is rejected
  by it like a call made with the channel set.\<close>

lemma resumed_call_times_out:
  assumes "st = run v4 (Msgr_new url exch copts) evs"
    and "connects st i = AwaitBindQueue" and "channel st \<noteq> None"
    and "(i, DRpcExec n key data options) \<in> set (waiters st)"
    and "list_all (quiet (v4 n) n) evs'"
  shows "settlements
           (step v4 (run v4 (step v4 st (BindQueueSettled i True)) evs') (TimeoutFired n)) n
         = [Rejected (timeout_error (case timeout options of None \<Rightarrow> 15000
                                     | Some t \<Rightarrow> if t \<noteq> 0 then t else 15000))]"
proof -
  let ?ws = "map snd (filter (\<lambda>w. fst w = i) (waiters st))"
  let ?st0 = "st\<lparr>connects := (connects st)(i := Fulfilled), waiters := filter (\<lambda>w. fst w \<noteq> i) (waiters st)\<rparr>"
  have i0: "inv v4 st" using inv_reachable[of v4 url exch copts evs] assms(1) by simp
  then have i1: "inv v4 (step v4 st (BindQueueSettled i True))" by (rule inv_step)
  have "distinct (waiting (map snd (waiters st)))"
    using i0 wf_rpcD(9)[of v4 "map snd (waiters st)" st] by (simp add: inv_def)
  then have d: "distinct (waiting ?ws)" by (rule waiting_filter_distinct)
  have m: "DRpcExec n key data options \<in> set ?ws" using assms(4) by force
  have ch: "channel ?st0 \<noteq> None" using assms(3) by simp
  have "timers (step v4 st (BindQueueSettled i True)) n
      = Some \<lparr>t_correlationId = v4 n, t_timeout = effective_timeout options\<rparr>"
    using foldl_resume_arms_with[OF ch d m, of v4] assms(2,3)
    by (simp add: bindQueue_settled_def fulfil_def)
  then show ?thesis
    using armed_timer_rejects[OF i1 _ assms(5)] by (simp add: effective_timeout_def)
qed

lemma waiting_unarmed:
  assumes "inv v4 st" "(j, DRpcExec n key data options) \<in> set (waiters st)"
  shows "timers st n = None"
proof -
  have w: "wf_rpc v4 (map snd (waiters st)) st" using assms(1) by (simp add: inv_def)
  have "n \<in> set (waiting (map snd (waiters st)))" using assms(2) by (force simp: waiting_def)
  then show ?thesis using wf_rpcD(4)[OF w, of n] by (cases "timers st n") auto
qed

text \<open>
  In every state the client reaches: with correlation ids that never repeat, an id is in
  the registry exactly when a timer armed for that id exists. When a reply for a registered
  id is handled first, the timer of its call was armed, the entry and the timer are gone
  afterwards, and the timer firing or a second reply for the id changes nothing. When the
  timer fires first, the entry and the timer are gone, and a reply for the id or the timer
  again changes nothing.
\<close>

lemma registry_race:
  assumes "st = run v4 (Msgr_new url exch copts) evs"
  shows "(inj v4 \<longrightarrow>
            (unresolved st cid \<noteq> None) = (\<exists>k tm. timers st k = Some tm \<and> t_correlationId tm = cid))
       \<and> (correlationId m = Some cid \<and> unresolved st cid = Some n \<longrightarrow>
            (\<exists>tm. timers st n = Some tm \<and> t_correlationId tm = cid)
          \<and> unresolved (step v4 st (ReplyDelivered m)) cid = None
          \<and> timers (step v4 st (ReplyDelivered m)) n = None
          \<and> step v4 (step v4 st (ReplyDelivered m)) (TimeoutFired n) = step v4 st (ReplyDelivered m)
          \<and> (correlationId m' = Some cid \<longrightarrow>
               step v4 (step v4 st (ReplyDelivered m)) (ReplyDelivered m') = step v4 st (ReplyDelivered m)))
       \<and> (timers st n = Some tm \<longrightarrow>
            unresolved (step v4 st (TimeoutFired n)) (t_correlationId tm) = None
          \<and> timers (step v4 st (TimeoutFired n)) n = None
          \<and> step v4 (step v4 st (TimeoutFired n)) (TimeoutFired n) = step v4 st (TimeoutFired n)
          \<and> (correlationId m' = Some (t_correlationId tm) \<longrightarrow>
               step v4 (step v4 st (TimeoutFired n)) (ReplyDelivered m') = step v4 st (TimeoutFired n)))"
proof (intro conjI impI)
  have w: "wf_rpc v4 (map snd (waiters st)) st"
    using inv_reachable[of v4 url exch copts evs] assms by (simp add: inv_def)
  {
    assume j: "inj v4"
    have f: "wf_fresh v4 st" using wf_fresh_reachable[OF j, of url exch copts evs] assms by simp
    show "(unresolved st cid \<noteq> None) = (\<exists>k tm. timers st k = Some tm \<and> t_correlationId tm = cid)"
    proof
      assume "unresolved st cid \<noteq> None"
      then obtain k where u: "unresolved st cid = Some k" by auto
      then obtain tm where t: "timers st k = Some tm" using wf_rpcD(6)[OF w u] by auto
      have "t_correlationId tm = cid" using wf_rpcD(3)[OF w t] wf_rpcD(5)[OF w u] by simp
      then show "\<exists>k tm. timers st k = Some tm \<and> t_correlationId tm = cid" using t by blast
    next
      assume "\<exists>k tm. timers st k = Some tm \<and> t_correlationId tm = cid"
      then obtain k tm where t: "timers st k = Some tm" and c: "t_correlationId tm = cid" by blast
      have "unresolved st (v4 k) = Some k" using f t unfolding wf_fresh_def by blast
      then show "unresolved st cid \<noteq> None" using wf_rpcD(3)[OF w t] c by simp
    qed
  }
  {
    assume a: "correlationId m = Some cid \<and> unresolved st cid = Some n"
    then have c: "correlationId m = Some cid" and u: "unresolved st cid = Some n" by simp_all
    obtain tm' where t: "timers st n = Some tm'" using wf_rpcD(6)[OF w u] by auto
    have "t_correlationId tm' = cid" using wf_rpcD(3)[OF w t] wf_rpcD(5)[OF w u] by simp
    then show "\<exists>tm. timers st n = Some tm \<and> t_correlationId tm = cid" using t by blast
    show 1: "unresolved (step v4 st (ReplyDelivered m)) cid = None"
      and 2: "timers (step v4 st (ReplyDelivered m)) n = None"
      using reply_disarms[OF c u] by simp_all
    show "step v4 (step v4 st (ReplyDelivered m)) (TimeoutFired n) = step v4 st (ReplyDelivered m)"
      using 2 by (simp add: timeout_fired_idle)
    assume "correlationId m' = Some cid"
    then show "step v4 (step v4 st (ReplyDelivered m)) (ReplyDelivered m') = step v4 st (ReplyDelivered m)"
      using 1 handleReply_unmatched[where m = m' and st = "step v4 st (ReplyDelivered m)"] by simp
  }
  {
    assume t: "timers st n = Some tm"
    show 1: "unresolved (step v4 st (TimeoutFired n)) (t_correlationId tm) = None"
      and 2: "timers (step v4 st (TimeoutFired n)) n = None"
      using t by (simp_all add: timeout_fired_armed settle_def)
    show "step v4 (step v4 st (TimeoutFired n)) (TimeoutFired n) = step v4 st (TimeoutFired n)"
      using 2 by (simp add: timeout_fired_idle)
    assume "correlationId m' = Some (t_correlationId tm)"
    then show "step v4 (step v4 st (TimeoutFired n)) (ReplyDelivered m') = step v4 st (TimeoutFired n)"
      using 1 handleReply_unmatched[where m = m' and st = "step v4 st (TimeoutFired n)"] by simp
  }
qed

text \<open>The race between a reply and the timeout, with the outcome each decides.\<close>

lemma race_outcome:
  assumes "st = run v4 (Msgr_new url exch copts) evs"
  shows "(correlationId m = Some cid \<and> unresolved st cid = Some n \<and> content m = Some r \<and> r \<noteq> JNull \<longrightarrow>
            settlements (step v4 (step v4 st (ReplyDelivered m)) (TimeoutFired n)) n
              = [if truthy (get r ''error'') \<and> truthy (get r ''trace'')
                 then Rejected (Error ''Fatal consumer error'')
                 else if truthy (get r ''error'')
                 then Rejected (ClientError ''Client error'' (get r ''data''))
                 else Resolved (get r ''data'')])
       \<and> (timers st n = Some tm \<and> correlationId m = Some (t_correlationId tm) \<longrightarrow>
            settlements (step v4 (step v4 st (TimeoutFired n)) (ReplyDelivered m)) n
              = [Rejected (timeout_error (t_timeout tm))])"
proof (intro conjI impI)
  have i: "inv v4 st" using inv_reachable[of v4 url exch copts evs] assms by simp
  then have w: "wf_rpc v4 (map snd (waiters st)) st" by (simp add: inv_def)
  {
    assume a: "correlationId m = Some cid \<and> unresolved st cid = Some n \<and> content m = Some r \<and> r \<noteq> JNull"
    then have "timers (step v4 st (ReplyDelivered m)) n = None" using reply_disarms(2)[of m cid st n v4] by simp
    then have "step v4 (step v4 st (ReplyDelivered m)) (TimeoutFired n) = step v4 st (ReplyDelivered m)"
      by (simp add: timeout_fired_idle)
    then show "settlements (step v4 (step v4 st (ReplyDelivered m)) (TimeoutFired n)) n
              = [if truthy (get r ''error'') \<and> truthy (get r ''trace'')
                 then Rejected (Error ''Fatal consumer error'')
                 else if truthy (get r ''error'')
                 then Rejected (ClientError ''Client error'' (get r ''data''))
                 else Resolved (get r ''data'')]"
      using reply_outcome[OF i, of m cid n r] a by simp
  }
  {
    assume a: "timers st n = Some tm \<and> correlationId m = Some (t_correlationId tm)"
    then have t: "timers st n = Some tm" by simp
    have e: "settlements st n = []" using wf_rpcD(1)[OF w t] .
    have "unresolved (step v4 st (TimeoutFired n)) (t_correlationId tm) = None"
      using t by (simp add: timeout_fired_armed settle_def)
    then have "step v4 (step v4 st (TimeoutFired n)) (ReplyDelivered m) = step v4 st (TimeoutFired n)"
      using a handleReply_unmatched[where m = m and st = "step v4 st (TimeoutFired n)"] by simp
    then show "settlements (step v4 (step v4 st (TimeoutFired n)) (ReplyDelivered m)) n
              = [Rejected (timeout_error (t_timeout tm))]"
      using t e by (simp add: timeout_fired_armed settle_def)
  }
qed

section \<open>The claims\<close>

text \<open>
  C1. In every state the client reaches, a reply envelope (a parsed body other than null)
  delivered for a pending call settles the call's promise with exactly this outcome:
  rejected with the generic error \<open>Fatal consumer error\<close> when \<open>error\<close> and \<open>trace\<close> are
  both truthy; otherwise rejected with a ClientError whose \<open>clientMessages\<close> is the
  envelope's \<open>data\<close> when \<open>error\<close> is truthy; otherwise resolved with \<open>data\<close>. The callback
  throws nothing.
\<close>

theorem reply_classification:
  assumes "st = run v4 (Msgr_new url exch copts) evs"
    and "correlationId m = Some cid" and "unresolved st cid = Some n"
    and "content m = Some response" and "response \<noteq> JNull"
  shows "settlements (step v4 st (ReplyDelivered m)) n =
           [if truthy (get response ''error'') \<and> truthy (get response ''trace'')
            then Rejected (Error ''Fatal consumer error'')
            else if truthy (get response ''error'')
            then Rejected (ClientError ''Client error'' (get response ''data''))
            else Resolved (get response ''data'')]
         \<and> snd (handleReply st m) = None"
proof -
  have "inv v4 st" using inv_reachable[of v4 url exch copts evs] assms(1) by simp
  then show ?thesis using assms(2-5) by (rule reply_outcome)
qed

theorem reply_classification_witness:
  "settlements (step demo_uuid (run demo_uuid demo_client (demo_setup @ [demo_call]))
       (ReplyDelivered demo_success)) 0
     = [Resolved (Some (JObj [(''n'', JNum 1)]))]
   \<and> settlements (step demo_uuid (run demo_uuid demo_client (demo_setup @ [demo_call]))
       (ReplyDelivered demo_client_error)) 0
     = [Rejected (ClientError ''Client error'' (Some (JArr [JStr ''bad field''])))]
   \<and> settlements (step demo_uuid (run demo_uuid demo_client (demo_setup @ [demo_call]))
       (ReplyDelivered (demo_fatal ''stack...'' JNull))) 0
     = [Rejected (Error ''Fatal consumer error'')]"
proof -
  let ?st = "run demo_uuid demo_client (demo_setup @ [demo_call])"
  let ?ok = "JObj [(''data'', JObj [(''n'', JNum 1)]), (''error'', JBool False)]"
  let ?bad = "JObj [(''data'', JArr [JStr ''bad field'']), (''error'', JBool True), (''trace'', JNull)]"
  let ?fatal = "JObj [(''data'', JNull), (''error'', JBool True), (''trace'', JStr ''stack...'')]"
  have e: "?st = run demo_uuid (Msgr_new ''amqp://broker'' None
          \<lparr>maxConnectionAttempts = None, connectionRetryInterval = None\<rparr>) (demo_setup @ [demo_call])"
    by (simp add: demo_client_def)
  have u: "unresolved ?st ''u'' = Some 0" by (simp add: demo_called demo_pending_state_def)
  have a: "correlationId demo_success = Some ''u''" "content demo_success = Some ?ok"
    "?ok \<noteq> JNull"
    by (simp_all add: demo_success_def)
  have b: "correlationId demo_client_error = Some ''u''" "content demo_client_error = Some ?bad"
    "?bad \<noteq> JNull"
    by (simp_all add: demo_client_error_def)
  have c: "correlationId (demo_fatal ''stack...'' JNull) = Some ''u''"
    "content (demo_fatal ''stack...'' JNull) = Some ?fatal" "?fatal \<noteq> JNull"
    by (simp_all add: demo_fatal_def)
  show ?thesis
    using reply_classification[OF e a(1) u a(2,3)] reply_classification[OF e b(1) u b(2,3)]
      reply_classification[OF e c(1) u c(2,3)]
    by simp
qed

text \<open>
  C2, at the input where the code departs from it: a reply with the call's correlation id
  and the body \<^verbatim>\<open>null\<close>, delivered while the call is registered and its timer armed.
  \<^verbatim>\<open>_handleReply\<close> removes the entry (line 180) and the callback clears the timer (line
  78) before line 82 throws a TypeError (a body that is not JSON throws a SyntaxError at
  line 80 in the same way). Neither resolve nor reject was called, and whatever happens
  afterwards the promise has no settlement.
\<close>

theorem matching_null_reply_never_settles:
  "unresolved (run demo_uuid demo_client (demo_setup @ [demo_call])) ''u'' = Some 0
   \<and> timers (run demo_uuid demo_client (demo_setup @ [demo_call])) 0
       = Some \<lparr>t_correlationId = ''u'', t_timeout = 50\<rparr>
   \<and> correlationId demo_null = Some ''u'' \<and> content demo_null = Some JNull
   \<and> snd (handleReply (run demo_uuid demo_client (demo_setup @ [demo_call])) demo_null) = Some TypeError
   \<and> snd (handleReply (run demo_uuid demo_client (demo_setup @ [demo_call])) demo_garbage) = Some SyntaxError
   \<and> (\<forall>evs. settlements
         (run demo_uuid demo_client (demo_setup @ [demo_call, ReplyDelivered demo_null] @ evs)) 0 = [])"
proof -
  have "unresolved (run demo_uuid demo_client (demo_setup @ [demo_call])) ''u'' = Some 0
   \<and> timers (run demo_uuid demo_client (demo_setup @ [demo_call])) 0
       = Some \<lparr>t_correlationId = ''u'', t_timeout = 50\<rparr>
   \<and> correlationId demo_null = Some ''u'' \<and> content demo_null = Some JNull
   \<and> snd (handleReply (run demo_uuid demo_client (demo_setup @ [demo_call])) demo_null) = Some TypeError
   \<and> snd (handleReply (run demo_uuid demo_client (demo_setup @ [demo_call])) demo_garbage) = Some SyntaxError"
    unfolding demo_called
    by (simp add: demo_pending_state_def demo_ready_state_def demo_null_def demo_garbage_def
        handleReply_def reply_callback_def)
  then show ?thesis using null_reply_never_settles by blast
qed

text \<open>
  C3, at the input where the code departs from it: a reply with the call's correlation id
  and the body \<^verbatim>\<open>null\<close> is handled before the timeout. It removes the entry and clears
  the timer but decides no outcome: the promise has no settlement, the timeout that follows
  changes nothing, and whatever happens afterwards the promise stays unsettled. (The timeout
  alone does decide: it rejects with the timeout error.)
\<close>

theorem null_reply_first_decides_no_outcome:
  "unresolved (run demo_uuid demo_client (demo_setup @ [demo_call, ReplyDelivered demo_null])) ''u'' = None
   \<and> timers (run demo_uuid demo_client (demo_setup @ [demo_call, ReplyDelivered demo_null])) 0 = None
   \<and> settlements (run demo_uuid demo_client (demo_setup @ [demo_call, ReplyDelivered demo_null])) 0 = []
   \<and> run demo_uuid demo_client (demo_setup @ [demo_call, ReplyDelivered demo_null, TimeoutFired 0])
       = run demo_uuid demo_client (demo_setup @ [demo_call, ReplyDelivered demo_null])
   \<and> settlements (run demo_uuid demo_client (demo_setup @ [demo_call, TimeoutFired 0])) 0
       = [Rejected (Error ''RPC Server failed to respond before the configured timeout (50ms)'')]
   \<and> (\<forall>evs. settlements
         (run demo_uuid demo_client (demo_setup @ [demo_call, ReplyDelivered demo_null] @ evs)) 0 = [])"
proof -
  let ?st = "run demo_uuid demo_client (demo_setup @ [demo_call, ReplyDelivered demo_null])"
  have s: "?st = step demo_uuid demo_pending_state (ReplyDelivered demo_null)"
    using demo_called by (simp add: run_def)
  have a: "unresolved ?st ''u'' = None" "timers ?st 0 = None" "settlements ?st 0 = []"
    unfolding s
    by (simp_all add: demo_pending_state_def demo_ready_state_def demo_null_def handleReply_def
        reply_callback_def)
  have "run demo_uuid demo_client (demo_setup @ [demo_call, ReplyDelivered demo_null, TimeoutFired 0])
      = step demo_uuid ?st (TimeoutFired 0)"
    by (simp add: run_def)
  then have b: "run demo_uuid demo_client (demo_setup @ [demo_call, ReplyDelivered demo_null, TimeoutFired 0])
      = ?st"
    using a(2) by (simp add: timeout_fired_idle)
  have "run demo_uuid demo_client (demo_setup @ [demo_call, TimeoutFired 0])
      = step demo_uuid demo_pending_state (TimeoutFired 0)"
    using demo_called by (simp add: run_def)
  then have c: "settlements (run demo_uuid demo_client (demo_setup @ [demo_call, TimeoutFired 0])) 0
       = [Rejected (Error ''RPC Server failed to respond before the configured timeout (50ms)'')]"
    by (simp add: timeout_fired_def settle_def demo_pending_state_def demo_ready_state_def
        timeout_error_demo)
  show ?thesis using a b c null_reply_never_settles by simp
qed

text \<open>
  C4. A message whose correlation id is undefined or not in the registry is dropped:
  \<^verbatim>\<open>_handleReply\<close> leaves the whole state as it is and throws nothing.
\<close>

theorem unmatched_reply_dropped:
  assumes "case correlationId m of None \<Rightarrow> True | Some cid \<Rightarrow> unresolved st cid = None"
  shows "handleReply st m = (st, None) \<and> step v4 st (ReplyDelivered m) = st"
  using handleReply_unmatched[OF assms] by simp

theorem unmatched_reply_dropped_witness:
  "handleReply (run demo_uuid demo_client (demo_setup @ [demo_call])) demo_stray
     = (run demo_uuid demo_client (demo_setup @ [demo_call]), None)
   \<and> handleReply (run demo_uuid demo_client (demo_setup @ [demo_call]))
        \<lparr>correlationId = None, content = Some JNull\<rparr>
     = (run demo_uuid demo_client (demo_setup @ [demo_call]), None)"
proof -
  have a: "case correlationId demo_stray of None \<Rightarrow> True
           | Some cid \<Rightarrow> unresolved (run demo_uuid demo_client (demo_setup @ [demo_call])) cid = None"
    by (simp add: demo_stray_def demo_called demo_pending_state_def)
  have b: "case correlationId \<lparr>correlationId = None, content = Some JNull\<rparr> of None \<Rightarrow> True
           | Some cid \<Rightarrow> unresolved (run demo_uuid demo_client (demo_setup @ [demo_call])) cid = None"
    by simp
  show ?thesis
    using unmatched_reply_dropped[OF a, of demo_uuid] unmatched_reply_dropped[OF b, of demo_uuid] by simp
qed

text \<open>
  C5, at the input where the code departs from it: a client allowed two attempts whose
  second attempt fails to connect while an rpcExec call with a timeout of 50 ms waits for
  the channel. Lines 60-62 arm no timer for a waiting call, and the call is never made
  again: no timer exists for it at any later time, no reply can come, and its promise is
  never rejected.
\<close>

theorem waiting_call_never_times_out:
  "waiters (run demo_uuid demo_client_two demo_exhaust) = [(1, demo_deferred)]
   \<and> connects (run demo_uuid demo_client_two demo_exhaust) 1 = Failed
   \<and> timers (run demo_uuid demo_client_two demo_exhaust) = Map.empty
   \<and> (\<forall>evs. timers (run demo_uuid demo_client_two (demo_exhaust @ evs)) 0 = None
          \<and> settlements (run demo_uuid demo_client_two (demo_exhaust @ evs)) 0 = [])"
proof -
  let ?st = "run demo_uuid demo_client_two demo_exhaust"
  have i: "inv demo_uuid ?st" unfolding demo_client_two_def by (rule inv_reachable)
  have a: "(1, demo_deferred) \<in> set (waiters ?st)" "connects ?st 1 = Failed"
    by (simp_all add: demo_exhausted)
  have b: "timers (run demo_uuid ?st evs) 0 = None \<and> settlements (run demo_uuid ?st evs) 0 = []" for evs
  proof -
    have s: "(1, DRpcExec 0 ''echo'' (JObj [(''n'', JNum 1)]) \<lparr>timeout = Some 50, publish_options = []\<rparr>)
        \<in> set (waiters (run demo_uuid ?st evs))"
      using stuck_run[OF i a, of evs] by (simp add: demo_deferred_def)
    have "inv demo_uuid (run demo_uuid ?st evs)" using i by (rule inv_run)
    then show ?thesis using waiting_unarmed[OF _ s] waiting_unsettled[OF _ s] by simp
  qed
  show ?thesis using b by (simp add: run_append demo_exhausted)
qed

text \<open>
  C6, at the input where the code departs from it: an rpcExec call with the channel set,
  a timeout of 50 and the transport's publish option \<^verbatim>\<open>persistent: true\<close> publishes one
  message whose options are the content type, the correlation id, the reply queue and the
  expiration only; \<^verbatim>\<open>persistent\<close> is not forwarded (lines 93-97 never read
  \<^verbatim>\<open>options\<close> but for its timeout). \<^verbatim>\<open>publish\<close> with the same option forwards it.
\<close>

theorem rpcExec_drops_publish_options:
  "transport (step demo_uuid (run demo_uuid demo_client demo_setup) demo_persistent)
     = [Publish ''msgr'' ''echo'' JNull
          (Some [(''contentType'', Some (JStr ''application/json'')),
                 (''correlationId'', Some (JStr ''u'')),
                 (''replyTo'', Some (JStr ''amq.gen-1'')),
                 (''expiration'', Some (JNum 50))])]
   \<and> transport (step demo_uuid (run demo_uuid demo_client demo_setup)
        (CallPublish ''echo'' JNull (Some [(''persistent'', Some (JBool True))])))
     = [Publish ''msgr'' ''echo'' JNull (Some [(''persistent'', Some (JBool True))])]"
  unfolding demo_ready
  by (simp add: demo_persistent_def demo_ready_state_def rpcExec_def publish_def Let_def
      demo_uuid_def effective_timeout_def sendOptions_def DEFAULT_SEND_OPTIONS_def)

text \<open>
  C7, at the input where the code departs from it: a client allowed two attempts whose
  second attempt fails to connect while an rpcExec call waits for the channel. The call
  waits behind a channel promise that has failed; whatever happens afterwards it is still
  waiting and its promise has no settlement, neither resolved nor rejected.
\<close>

theorem retry_exhaustion_not_surfaced:
  "opt_maxConnectionAttempts demo_client_two = 2
   \<and> connects (run demo_uuid demo_client_two (butlast demo_exhaust)) 1 = AwaitConnect 2
   \<and> connects (run demo_uuid demo_client_two demo_exhaust) 1 = Failed
   \<and> waiters (run demo_uuid demo_client_two demo_exhaust) = [(1, demo_deferred)]
   \<and> (\<forall>evs. (1, demo_deferred) \<in> set (waiters (run demo_uuid demo_client_two (demo_exhaust @ evs)))
            \<and> settlements (run demo_uuid demo_client_two (demo_exhaust @ evs)) 0 = [])"
proof -
  let ?st = "run demo_uuid demo_client_two demo_exhaust"
  have i: "inv demo_uuid ?st" unfolding demo_client_two_def by (rule inv_reachable)
  have a: "(1, demo_deferred) \<in> set (waiters ?st)" "connects ?st 1 = Failed"
    by (simp_all add: demo_exhausted)
  have b: "(1, demo_deferred) \<in> set (waiters (run demo_uuid ?st evs))
       \<and> settlements (run demo_uuid ?st evs) 0 = []" for evs
  proof -
    have s: "(1, demo_deferred) \<in> set (waiters (run demo_uuid ?st evs))"
      using stuck_run[OF i a, of evs] by simp
    have "inv demo_uuid (run demo_uuid ?st evs)" using i by (rule inv_run)
    then have "settlements (run demo_uuid ?st evs) 0 = []"
      using s waiting_unsettled[of demo_uuid "run demo_uuid ?st evs" 1 0] by (simp add: demo_deferred_def)
    then show ?thesis using s by simp
  qed
  have c: "connects (run demo_uuid demo_client_two (butlast demo_exhaust)) 1 = AwaitConnect 2"
    by (simp add: run_def demo_client_two_def demo_exhaust_def demo_call_def
      Msgr_new_def connect_settled_def createChannel_settled_def channel_error_def
      retry_delay_elapsed_def rpcExec_def waitForChannel_def fail_def)
  have d: "opt_maxConnectionAttempts demo_client_two = 2"
    by (simp add: demo_client_two_def Msgr_new_def)
  show ?thesis using a b c d by (simp add: run_append demo_exhausted)
qed

text \<open>
  C8, at the input where the code departs from it: an rpcExec call made before the first
  connection is up is stored behind the first channel promise; the set-up fails at
  \<^verbatim>\<open>bindQueue\<close>, the channel emits an error and the retry succeeds. The channel is then
  set and its promise fulfilled, a call made now is published at once, but the earlier call
  was never made on the channel and, whatever happens afterwards, it is still waiting and
  its promise has no settlement.
\<close>

theorem deferred_call_lost:
  "waiters (run demo_uuid demo_client [demo_call]) = [(0, demo_deferred)]
   \<and> channel (run demo_uuid demo_client demo_lost) = Some 1
   \<and> connects (run demo_uuid demo_client demo_lost) 1 = Fulfilled
   \<and> transport (run demo_uuid demo_client demo_lost) = []
   \<and> transport (run demo_uuid demo_client (demo_lost @ [CallPublish ''later'' JNull None]))
       = [Publish ''msgr'' ''later'' JNull None]
   \<and> (\<forall>evs. (0, demo_deferred) \<in> set (waiters (run demo_uuid demo_client (demo_lost @ evs)))
            \<and> settlements (run demo_uuid demo_client (demo_lost @ evs)) 0 = [])"
proof -
  let ?st = "run demo_uuid demo_client demo_lost"
  have i: "inv demo_uuid ?st" unfolding demo_client_new by (rule inv_reachable)
  have a: "(0, demo_deferred) \<in> set (waiters ?st)" "connects ?st 0 = Failed"
    by (simp_all add: demo_lost_state)
  have b: "(0, demo_deferred) \<in> set (waiters (run demo_uuid ?st evs))
       \<and> settlements (run demo_uuid ?st evs) 0 = []" for evs
  proof -
    have s: "(0, demo_deferred) \<in> set (waiters (run demo_uuid ?st evs))"
      using stuck_run[OF i a, of evs] by simp
    have "inv demo_uuid (run demo_uuid ?st evs)" using i by (rule inv_run)
    then have "settlements (run demo_uuid ?st evs) 0 = []"
      using s waiting_unsettled[of demo_uuid "run demo_uuid ?st evs" 0 0] by (simp add: demo_deferred_def)
    then show ?thesis using s by simp
  qed
  have c: "waiters (run demo_uuid demo_client [demo_call]) = [(0, demo_deferred)]"
    by (simp add: run_def demo_client_def demo_call_def demo_deferred_def Msgr_new_def
        rpcExec_def waitForChannel_def)
  have d: "transport (run demo_uuid ?st [CallPublish ''later'' JNull None])
       = [Publish ''msgr'' ''later'' JNull None]"
    unfolding demo_lost_state by (simp add: run_def publish_def)
  show ?thesis using b c d by (simp add: run_append demo_lost_state)
qed

text \<open>
  C9. Two replies with the same correlation id whose envelopes both have a truthy
  \<open>error\<close> and a truthy \<open>trace\<close> leave the same state and the same result, whatever
  their \<open>trace\<close> and \<open>data\<close>; for a pending call the promise is rejected with the generic
  error.
\<close>

theorem trace_noninterference:
  assumes "correlationId m1 = correlationId m2"
    and "content m1 = Some r1" "truthy (get r1 ''error'')" "truthy (get r1 ''trace'')"
    and "content m2 = Some r2" "truthy (get r2 ''error'')" "truthy (get r2 ''trace'')"
  shows "handleReply st m1 = handleReply st m2
       \<and> (\<forall>cid n. correlationId m1 = Some cid \<and> unresolved st cid = Some n \<longrightarrow>
            settlements (fst (handleReply st m1)) n
              = settlements st n @ [Rejected (Error ''Fatal consumer error'')])"
proof -
  have n1: "r1 \<noteq> JNull" and n2: "r2 \<noteq> JNull" using assms(3,6) by auto
  have c1: "reply_callback n m1 st' =
      (settle n (Rejected (Error ''Fatal consumer error'')) (st'\<lparr>timers := (timers st')(n := None)\<rparr>), None)"
    for n st'
    using reply_callback_envelope[OF assms(2) n1, of n st'] assms(3,4) by simp
  have c2: "reply_callback n m2 st' =
      (settle n (Rejected (Error ''Fatal consumer error'')) (st'\<lparr>timers := (timers st')(n := None)\<rparr>), None)"
    for n st'
    using reply_callback_envelope[OF assms(5) n2, of n st'] assms(6,7) by simp
  show ?thesis
  proof (cases "case correlationId m1 of None \<Rightarrow> True | Some cid \<Rightarrow> unresolved st cid = None")
    case True
    then show ?thesis
      using handleReply_unmatched[where m = m1 and st = st]
        handleReply_unmatched[where m = m2 and st = st] assms(1)
      by (auto split: option.splits)
  next
    case False
    then obtain cid n where m: "correlationId m1 = Some cid" and u: "unresolved st cid = Some n"
      by (auto split: option.splits)
    have m2: "correlationId m2 = Some cid" using m assms(1) by simp
    show ?thesis
      using m u by (simp add: handleReply_matched[OF m u] handleReply_matched[OF m2 u] c1 c2 settle_def)
  qed
qed

theorem trace_noninterference_witness:
  "handleReply (run demo_uuid demo_client (demo_setup @ [demo_call]))
       (demo_fatal ''Error: boom at worker.rb:12'' JNull)
     = handleReply (run demo_uuid demo_client (demo_setup @ [demo_call]))
       (demo_fatal ''secret stack'' (JStr ''internal''))
   \<and> settlements (fst (handleReply (run demo_uuid demo_client (demo_setup @ [demo_call]))
       (demo_fatal ''Error: boom at worker.rb:12'' JNull))) 0
     = [Rejected (Error ''Fatal consumer error'')]"
proof -
  let ?st = "run demo_uuid demo_client (demo_setup @ [demo_call])"
  let ?a = "demo_fatal ''Error: boom at worker.rb:12'' JNull"
  let ?b = "demo_fatal ''secret stack'' (JStr ''internal'')"
  have 1: "correlationId ?a = correlationId ?b" by (simp add: demo_fatal_def)
  have 2: "content ?a = Some (JObj [(''data'', JNull), (''error'', JBool True),
             (''trace'', JStr ''Error: boom at worker.rb:12'')])"
    by (simp add: demo_fatal_def)
  have 3: "content ?b = Some (JObj [(''data'', JStr ''internal''), (''error'', JBool True),
             (''trace'', JStr ''secret stack'')])"
    by (simp add: demo_fatal_def)
  have 4: "truthy (get (JObj [(''data'', JNull), (''error'', JBool True),
             (''trace'', JStr ''Error: boom at worker.rb:12'')]) ''error'')"
     "truthy (get (JObj [(''data'', JNull), (''error'', JBool True),
             (''trace'', JStr ''Error: boom at worker.rb:12'')]) ''trace'')"
     "truthy (get (JObj [(''data'', JStr ''internal''), (''error'', JBool True),
             (''trace'', JStr ''secret stack'')]) ''error'')"
     "truthy (get (JObj [(''data'', JStr ''internal''), (''error'', JBool True),
             (''trace'', JStr ''secret stack'')]) ''trace'')"
    by simp_all
  have 5: "correlationId ?a = Some ''u''" by (simp add: demo_fatal_def)
  have 6: "unresolved ?st ''u'' = Some 0" "settlements ?st 0 = []"
    by (simp_all add: demo_called demo_pending_state_def demo_ready_state_def)
  note t = trace_noninterference[OF 1 2 4(1,2) 3 4(3,4), of ?st]
  have "settlements (fst (handleReply ?st ?a)) 0
      = settlements ?st 0 @ [Rejected (Error ''Fatal consumer error'')]"
    using t[THEN conjunct2] 5 6(1) by blast
  then show ?thesis using t[THEN conjunct1] 6(2) by simp
qed

text \<open>
  C10. An rpcExec call made with the channel set and a timeout that is missing or 0 arms
  its timer with 15000 ms and publishes with an expiration of 15000.
\<close>

theorem falsy_timeout_default:
  assumes "channel st \<noteq> None" and "timeout options = None \<or> timeout options = Some 0"
  shows "timers (step v4 st (CallRpcExec key data options)) (next_call st)
           = Some \<lparr>t_correlationId = v4 (next_call st), t_timeout = 15000\<rparr>
       \<and> transport (step v4 st (CallRpcExec key data options))
           = transport st @
               [Publish (exchange st) key data
                  (Some [(''contentType'', Some (JStr ''application/json'')),
                         (''correlationId'', Some (JStr (v4 (next_call st)))),
                         (''replyTo'', map_option JStr (replyQueue st)),
                         (''expiration'', Some (JNum 15000))])]"
proof -
  have "effective_timeout options = 15000" using assms(2) by (auto simp: effective_timeout_def)
  moreover have "channel (st\<lparr>next_call := Suc (next_call st)\<rparr>) \<noteq> None" using assms(1) by simp
  ultimately show ?thesis
    by (simp add: rpcExec_ready sendOptions_def DEFAULT_SEND_OPTIONS_def)
qed

theorem falsy_timeout_default_witness:
  "timers (step demo_uuid (run demo_uuid demo_client demo_setup)
       (CallRpcExec ''echo'' JNull \<lparr>timeout = Some 0, publish_options = []\<rparr>)) 0
     = Some \<lparr>t_correlationId = ''u'', t_timeout = 15000\<rparr>
   \<and> transport (step demo_uuid (run demo_uuid demo_client demo_setup)
       (CallRpcExec ''echo'' JNull \<lparr>timeout = Some 0, publish_options = []\<rparr>))
     = [Publish ''msgr'' ''echo'' JNull
          (Some [(''contentType'', Some (JStr ''application/json'')),
                 (''correlationId'', Some (JStr ''u'')),
                 (''replyTo'', Some (JStr ''amq.gen-1'')),
                 (''expiration'', Some (JNum 15000))])]"
proof -
  let ?st = "run demo_uuid demo_client demo_setup"
  let ?opts = "\<lparr>timeout = Some 0, publish_options = []\<rparr>"
  have a: "channel ?st \<noteq> None" by (simp add: demo_ready demo_ready_state_def)
  have b: "timeout ?opts = None \<or> timeout ?opts = Some 0" by simp
  have c: "next_call ?st = 0" "exchange ?st = ''msgr''" "replyQueue ?st = Some ''amq.gen-1''"
    "transport ?st = []" "demo_uuid 0 = ''u''"
    by (simp_all add: demo_ready demo_ready_state_def demo_uuid_def)
  show ?thesis using falsy_timeout_default[OF a b, of demo_uuid "''echo''" JNull] c by simp
qed

end
